theory Spec2Isabelle
  imports Main
begin

section \<open>Data model (main.go, lines 15-44)\<close>

text \<open>
  The anonymous struct \<^verbatim>\<open>CustomAttributes\<close> of \<^verbatim>\<open>Product\<close> and the struct itself.
  Go strings are byte sequences and \<^verbatim>\<open>len\<close> counts bytes, as \<open>length\<close> does on a
  \<open>string\<close> (a list of 8-bit characters).
\<close>

record custom_attributes =
  Publishers :: "string list"
  PublicationDate :: string

record Product =
  ProductID :: string
  URL :: string
  Language :: string
  Title :: string
  Type :: string
  Description :: string
  Categories :: "string list list"
  CoverImage :: string
  CustomAttributes :: custom_attributes
  Authors :: "string list"

text \<open>Run-time panics of the Go runtime that the modelled code can raise.\<close>

datatype go_panic = SliceBoundsOutOfRange | SendOnClosedChannel | CloseOfClosedChannel
  | NegativeWaitGroupCounter

section \<open>formatCategories (main.go, lines 213-224)\<close>

text \<open>
  The \<^verbatim>\<open>for ... range categories\<close> loop, with the accumulator \<^verbatim>\<open>formatted\<close>;
  \<^verbatim>\<open>fmt.Sprintf("%s > ", category[0])\<close> is the label followed by the three bytes
  \<^verbatim>\<open>" > "\<close>. The index \<^verbatim>\<open>category[0]\<close> is guarded by \<^verbatim>\<open>len(category) > 0\<close>.
\<close>

fun formatCategories_loop :: "string list list \<Rightarrow> string \<Rightarrow> string" where
  "formatCategories_loop [] formatted = formatted"
| "formatCategories_loop (category # rest) formatted =
     (if length category > 0
      then formatCategories_loop rest (formatted @ (category ! 0) @ '' > '')
      else formatCategories_loop rest formatted)"

text \<open>
  The slice expression \<^verbatim>\<open>formatted[:len(formatted)-3]\<close> panics when
  \<^verbatim>\<open>len(formatted)-3\<close> is negative; the model returns the panic as a value.
\<close>

definition formatCategories :: "string list list \<Rightarrow> go_panic + string" where
  "formatCategories categories =
     (let formatted = formatCategories_loop categories []
      in if length formatted > 0
         then (if int (length formatted) - 3 < 0 then Inl SliceBoundsOutOfRange
               else Inr (take (nat (int (length formatted) - 3)) formatted))
         else Inr formatted)"

section \<open>The writers (main.go, lines 136-211)\<close>

text \<open>
  \<^verbatim>\<open>strings.Join\<close>, and \<^verbatim>\<open>fmt.Sprintf("%v", xs)\<close> for a slice of strings: the
  elements separated by one space, in square brackets.
\<close>

fun strings_Join :: "string list \<Rightarrow> string \<Rightarrow> string" where
  "strings_Join [] sep = []"
| "strings_Join [x] sep = x"
| "strings_Join (x # y # rest) sep = x @ sep @ strings_Join (y # rest) sep"

definition sprintf_v :: "string list \<Rightarrow> string" where
  "sprintf_v xs = ''['' @ strings_Join xs '' '' @ '']''"

text \<open>
  The file system is the environment of the writers: whether \<^verbatim>\<open>os.Create\<close>
  succeeds, and whether the \<open>i\<close>-th write call on the file (counted from 0) does.
\<close>

record io_env =
  create_ok :: bool
  write_ok :: "nat \<Rightarrow> bool"

datatype io_error = CreateError | WriteError

text \<open>What a writer returns: \<^verbatim>\<open>nil\<close>, an error, or a panic that unwinds through it.\<close>

datatype write_result = Returned_nil | Err io_error | Panics go_panic

definition csv_header :: "string list" where
  "csv_header = [''Title'', ''Publication Date'', ''URL'', ''Type'', ''Language'',
                 ''Categories'', ''Cover Image'', ''Publishers'', ''Authors'']"

text \<open>The body of the loop of \<^verbatim>\<open>writeCSV\<close> up to the literal \<^verbatim>\<open>row\<close> (lines 154-165).\<close>

definition csv_row :: "Product \<Rightarrow> go_panic + string list" where
  "csv_row product =
     (case formatCategories (Categories product) of
        Inl p \<Rightarrow> Inl p
      | Inr categories \<Rightarrow>
          Inr [Title product,
               PublicationDate (CustomAttributes product),
               URL product,
               Type product,
               Language product,
               categories,
               CoverImage product,
               sprintf_v (Publishers (CustomAttributes product)),
               sprintf_v (Authors product)])"

text \<open>
  A CSV file is modelled as the list of records handed to \<^verbatim>\<open>writer.Write\<close>, one
  list of fields per record; the byte encoding of \<^verbatim>\<open>encoding/csv\<close> is not modelled.
  \<open>i\<close> counts the calls of \<^verbatim>\<open>writer.Write\<close>.
\<close>

fun writeCSV_loop ::
  "(nat \<Rightarrow> bool) \<Rightarrow> nat \<Rightarrow> Product list \<Rightarrow> string list list \<Rightarrow> write_result \<times> string list list"
where
  "writeCSV_loop ok i [] file = (Returned_nil, file)"
| "writeCSV_loop ok i (product # rest) file =
     (case csv_row product of
        Inl p \<Rightarrow> (Panics p, file)
      | Inr row \<Rightarrow>
          if ok i then writeCSV_loop ok (Suc i) rest (file @ [row])
          else (Err WriteError, file))"

text \<open>The result and the file left behind (\<open>None\<close>: the file was not created).\<close>

definition writeCSV :: "io_env \<Rightarrow> Product list \<Rightarrow> write_result \<times> string list list option" where
  "writeCSV env products =
     (if \<not> create_ok env then (Err CreateError, None)
      else if \<not> write_ok env 0 then (Err WriteError, Some [])
      else (case writeCSV_loop (write_ok env) 1 products [csv_header] of
              (r, file) \<Rightarrow> (r, Some file)))"

definition md_header :: "string list" where
  "md_header = [''Title'', ''Publication Date'', ''Categories'']"

definition md_separator :: "string list" where
  "md_separator = replicate (length md_header) ''---''"

definition md_line :: "string list \<Rightarrow> string" where
  "md_line cells = ''| '' @ strings_Join cells '' | '' @ '' |'' @ [CHR 0x0A]"

text \<open>\<^verbatim>\<open>fmt.Sprintf("| [%s](%s) | %s | %s |\n", ...)\<close> of line 203.\<close>

definition md_item :: "Product \<Rightarrow> go_panic + string" where
  "md_item product =
     (case formatCategories (Categories product) of
        Inl p \<Rightarrow> Inl p
      | Inr categories \<Rightarrow>
          Inr (''| ['' @ Title product @ '']('' @ URL product @ '') | ''
               @ PublicationDate (CustomAttributes product) @ '' | '' @ categories
               @ '' |'' @ [CHR 0x0A]))"

text \<open>A Markdown file is the concatenation of the strings written to it.\<close>

fun writeMarkdown_loop ::
  "(nat \<Rightarrow> bool) \<Rightarrow> nat \<Rightarrow> Product list \<Rightarrow> string \<Rightarrow> write_result \<times> string"
where
  "writeMarkdown_loop ok i [] file = (Returned_nil, file)"
| "writeMarkdown_loop ok i (product # rest) file =
     (case md_item product of
        Inl p \<Rightarrow> (Panics p, file)
      | Inr item \<Rightarrow>
          if ok i then writeMarkdown_loop ok (Suc i) rest (file @ item)
          else (Err WriteError, file))"

definition writeMarkdown :: "io_env \<Rightarrow> Product list \<Rightarrow> write_result \<times> string option" where
  "writeMarkdown env products =
     (if \<not> create_ok env then (Err CreateError, None)
      else if \<not> write_ok env 0 then (Err WriteError, Some [])
      else if \<not> write_ok env 1 then (Err WriteError, Some (md_line md_header))
      else (case writeMarkdown_loop (write_ok env) 2 products
                   (md_line md_header @ md_line md_separator) of
              (r, file) \<Rightarrow> (r, Some file)))"

section \<open>The concurrent pipeline (main.go, lines 46-110)\<close>

text \<open>
  The environment of a run: the parameters \<^verbatim>\<open>pageMax\<close> and \<^verbatim>\<open>maxConcurrent\<close> (the
  constants 100 and 5 of lines 41-43), what \<^verbatim>\<open>fetchData\<close> returns for the URL of each
  page (an error, or \<^verbatim>\<open>response.Data.Products\<close>), and the file system seen by each
  writer. \<^verbatim>\<open>pageMax\<close> is a natural number here: for a negative \<^verbatim>\<open>int\<close> the loop of
  \<^verbatim>\<open>fetchProducts\<close> does not run, as for 0.
\<close>

datatype fetch_error = RequestError | TransportError | DecodeError

record config =
  pageMax :: nat
  maxConcurrent :: nat
  fetchData :: "nat \<Rightarrow> fetch_error + Product list"
  csv_env :: io_env
  md_env :: io_env

text \<open>
  Program points of the four kinds of goroutine, one per synchronisation operation.

  \<^item> \<^verbatim>\<open>main\<close>: \<^verbatim>\<open>wg.Add(1)\<close> (line 54), \<^verbatim>\<open>go\<close> (55), \<^verbatim>\<open>wg.Add(1)\<close> (61), \<^verbatim>\<open>go\<close> (62),
    \<^verbatim>\<open>wg.Wait()\<close> (69), \<^verbatim>\<open>writeCSV\<close> (75), \<^verbatim>\<open>writeMarkdown\<close> (79), \<^verbatim>\<open>Println\<close> (83).
  \<^item> the goroutine of lines 55-59, which runs \<^verbatim>\<open>fetchProducts\<close>: the loop test and
    \<^verbatim>\<open>sem <- struct{}{}\<close> (89-90), \<^verbatim>\<open>wg.Add(1)\<close> (91), \<^verbatim>\<open>go func(page)\<close> (93), then
    \<^verbatim>\<open>close(productsChan)\<close> (58) and the deferred \<^verbatim>\<open>wg.Done()\<close> (56).
  \<^item> the goroutine of lines 62-67: \<^verbatim>\<open>range productsChan\<close> with the \<^verbatim>\<open>append\<close> (64-65),
    and the deferred \<^verbatim>\<open>wg.Done()\<close> (63).
  \<^item> the goroutine of lines 93-108 for one page: \<^verbatim>\<open>fetchData\<close> and the log line
    (97-104), the send (107), the deferred \<^verbatim>\<open><-sem\<close> (95) and \<^verbatim>\<open>wg.Done()\<close> (94).

  A goroutine that panics runs its deferred calls and then the runtime ends the
  program; the option carried by the deferred points is the panic being unwound.
\<close>

datatype main_pc = M_add_fetch | M_go_fetch | M_add_drain | M_go_drain | M_wait
  | M_writeCSV | M_writeMarkdown | M_println | M_returned

datatype disp_pc = D_idle | D_loop nat | D_add nat | D_go nat | D_close
  | D_done "go_panic option" | D_fatal go_panic | D_returned

datatype cons_pc = C_idle | C_range | C_done | C_returned

datatype task_pc = T_idle | T_fetch | T_send "Product list"
  | T_release "go_panic option" | T_done "go_panic option" | T_fatal go_panic | T_returned

datatype tid = Main | Dispatcher | Consumer | Task nat

text \<open>
  What a run does that can be observed from outside: goroutines launched, calls of
  \<^verbatim>\<open>fetchData\<close>, lines of the log, sends and the close of \<^verbatim>\<open>productsChan\<close>, the
  message of a panic, the final \<^verbatim>\<open>Println\<close>.
\<close>

datatype event = Spawned nat | Fetched nat | LogFetchError nat fetch_error | LogPage nat nat
  | Sent nat | ChanClosed | PanicMsg go_panic | LogFatalCSV io_error
  | LogFatalMarkdown io_error | PrintDone

datatype status = Running | Exited nat

text \<open>
  The shared state: the counter of the \<^verbatim>\<open>WaitGroup\<close>, the number of tokens in
  \<^verbatim>\<open>sem\<close>, the buffer of \<^verbatim>\<open>productsChan\<close> and whether it is closed, the slice
  \<^verbatim>\<open>allProducts\<close>, the two files, and the program point of every goroutine
  (\<open>tasks ! p\<close> for the goroutine of page \<open>p\<close>).
\<close>

record state =
  status :: status
  main_pc :: main_pc
  disp_pc :: disp_pc
  cons_pc :: cons_pc
  tasks :: "task_pc list"
  wg :: int
  sem :: nat
  chan :: "Product list list"
  closed :: bool
  allProducts :: "Product list"
  csv_file :: "string list list option"
  md_file :: "string option"
  trace :: "event list"

definition init :: "config \<Rightarrow> state" where
  "init cfg =
     \<lparr>status = Running, main_pc = M_add_fetch, disp_pc = D_idle, cons_pc = C_idle,
      tasks = replicate (pageMax cfg) T_idle, wg = 0, sem = 0, chan = [], closed = False,
      allProducts = [], csv_file = None, md_file = None, trace = []\<rparr>"

text \<open>
  \<^verbatim>\<open>log.Fatalf\<close> prints and exits with status 1; a panic that reaches the top of a
  goroutine prints and exits with status 2; a return of \<^verbatim>\<open>main\<close> exits with status 0.
\<close>

definition step_main :: "config \<Rightarrow> state \<Rightarrow> state option" where
  "step_main cfg s =
     (case main_pc s of
        M_add_fetch \<Rightarrow> Some (s\<lparr>wg := wg s + 1, main_pc := M_go_fetch\<rparr>)
      | M_go_fetch \<Rightarrow> Some (s\<lparr>disp_pc := D_loop 0, main_pc := M_add_drain\<rparr>)
      | M_add_drain \<Rightarrow> Some (s\<lparr>wg := wg s + 1, main_pc := M_go_drain\<rparr>)
      | M_go_drain \<Rightarrow> Some (s\<lparr>cons_pc := C_range, main_pc := M_wait\<rparr>)
      | M_wait \<Rightarrow> if wg s = 0 then Some (s\<lparr>main_pc := M_writeCSV\<rparr>) else None
      | M_writeCSV \<Rightarrow>
          (case writeCSV (csv_env cfg) (allProducts s) of
             (Returned_nil, f) \<Rightarrow> Some (s\<lparr>csv_file := f, main_pc := M_writeMarkdown\<rparr>)
           | (Err e, f) \<Rightarrow>
               Some (s\<lparr>csv_file := f, trace := trace s @ [LogFatalCSV e], status := Exited 1\<rparr>)
           | (Panics p, f) \<Rightarrow>
               Some (s\<lparr>csv_file := f, trace := trace s @ [PanicMsg p], status := Exited 2\<rparr>))
      | M_writeMarkdown \<Rightarrow>
          (case writeMarkdown (md_env cfg) (allProducts s) of
             (Returned_nil, f) \<Rightarrow> Some (s\<lparr>md_file := f, main_pc := M_println\<rparr>)
           | (Err e, f) \<Rightarrow>
               Some (s\<lparr>md_file := f, trace := trace s @ [LogFatalMarkdown e], status := Exited 1\<rparr>)
           | (Panics p, f) \<Rightarrow>
               Some (s\<lparr>md_file := f, trace := trace s @ [PanicMsg p], status := Exited 2\<rparr>))
      | M_println \<Rightarrow>
          Some (s\<lparr>trace := trace s @ [PrintDone], main_pc := M_returned, status := Exited 0\<rparr>)
      | M_returned \<Rightarrow> None)"

text \<open>
  \<^verbatim>\<open>sem <- struct{}{}\<close> blocks while \<^verbatim>\<open>sem\<close> holds \<^verbatim>\<open>maxConcurrent\<close> tokens. A blocked
  operation is a step that is not enabled (\<open>None\<close>). \<^verbatim>\<open>close\<close> of a closed channel
  panics. \<^verbatim>\<open>wg.Done()\<close> panics when the counter becomes negative; it is the last
  deferred call of its goroutine, so that panic ends the program.
\<close>

definition step_disp :: "config \<Rightarrow> state \<Rightarrow> state option" where
  "step_disp cfg s =
     (case disp_pc s of
        D_idle \<Rightarrow> None
      | D_loop page \<Rightarrow>
          if page < pageMax cfg
          then (if sem s < maxConcurrent cfg
                then Some (s\<lparr>sem := sem s + 1, disp_pc := D_add page\<rparr>)
                else None)
          else Some (s\<lparr>disp_pc := D_close\<rparr>)
      | D_add page \<Rightarrow> Some (s\<lparr>wg := wg s + 1, disp_pc := D_go page\<rparr>)
      | D_go page \<Rightarrow>
          Some (s\<lparr>tasks := (tasks s)[page := T_fetch], trace := trace s @ [Spawned page],
                  disp_pc := D_loop (page + 1)\<rparr>)
      | D_close \<Rightarrow>
          if closed s then Some (s\<lparr>disp_pc := D_done (Some CloseOfClosedChannel)\<rparr>)
          else Some (s\<lparr>closed := True, trace := trace s @ [ChanClosed],
                       disp_pc := D_done None\<rparr>)
      | D_done panicking \<Rightarrow>
          if wg s - 1 < 0
          then Some (s\<lparr>wg := wg s - 1, trace := trace s @ [PanicMsg NegativeWaitGroupCounter],
                       status := Exited 2\<rparr>)
          else Some (s\<lparr>wg := wg s - 1,
                       disp_pc := (case panicking of None \<Rightarrow> D_returned | Some p \<Rightarrow> D_fatal p)\<rparr>)
      | D_fatal p \<Rightarrow> Some (s\<lparr>trace := trace s @ [PanicMsg p], status := Exited 2\<rparr>)
      | D_returned \<Rightarrow> None)"

text \<open>
  \<^verbatim>\<open>for products := range productsChan\<close>: a buffered batch is received and
  appended; with an empty buffer the loop ends if the channel is closed and blocks
  otherwise.
\<close>

definition step_cons :: "config \<Rightarrow> state \<Rightarrow> state option" where
  "step_cons cfg s =
     (case cons_pc s of
        C_idle \<Rightarrow> None
      | C_range \<Rightarrow>
          (case chan s of
             products # rest \<Rightarrow>
               Some (s\<lparr>chan := rest, allProducts := allProducts s @ products\<rparr>)
           | [] \<Rightarrow> if closed s then Some (s\<lparr>cons_pc := C_done\<rparr>) else None)
      | C_done \<Rightarrow>
          if wg s - 1 < 0
          then Some (s\<lparr>wg := wg s - 1, trace := trace s @ [PanicMsg NegativeWaitGroupCounter],
                       status := Exited 2\<rparr>)
          else Some (s\<lparr>wg := wg s - 1, cons_pc := C_returned\<rparr>)
      | C_returned \<Rightarrow> None)"

text \<open>
  The goroutine of page \<open>p\<close>. A send on a closed channel panics; on an open channel
  it blocks while the buffer holds \<^verbatim>\<open>maxConcurrent\<close> batches. The deferred calls run
  in reverse order: \<^verbatim>\<open><-sem\<close>, then \<^verbatim>\<open>wg.Done()\<close>.
\<close>

definition step_task :: "config \<Rightarrow> nat \<Rightarrow> state \<Rightarrow> state option" where
  "step_task cfg p s =
     (if p < length (tasks s) then
        (case tasks s ! p of
           T_idle \<Rightarrow> None
         | T_fetch \<Rightarrow>
             (case fetchData cfg p of
                Inl e \<Rightarrow>
                  Some (s\<lparr>tasks := (tasks s)[p := T_release None],
                          trace := trace s @ [Fetched p, LogFetchError p e]\<rparr>)
              | Inr products \<Rightarrow>
                  Some (s\<lparr>tasks := (tasks s)[p := T_send products],
                          trace := trace s @ [Fetched p, LogPage p (length products)]\<rparr>))
         | T_send products \<Rightarrow>
             if closed s
             then Some (s\<lparr>tasks := (tasks s)[p := T_release (Some SendOnClosedChannel)]\<rparr>)
             else if length (chan s) < maxConcurrent cfg
             then Some (s\<lparr>chan := chan s @ [products], tasks := (tasks s)[p := T_release None],
                          trace := trace s @ [Sent p]\<rparr>)
             else None
         | T_release panicking \<Rightarrow>
             if sem s > 0
             then Some (s\<lparr>sem := sem s - 1, tasks := (tasks s)[p := T_done panicking]\<rparr>)
             else None
         | T_done panicking \<Rightarrow>
             if wg s - 1 < 0
             then Some (s\<lparr>wg := wg s - 1,
                          trace := trace s @ [PanicMsg NegativeWaitGroupCounter],
                          status := Exited 2\<rparr>)
             else Some (s\<lparr>wg := wg s - 1,
                          tasks := (tasks s)[p := (case panicking of None \<Rightarrow> T_returned
                                                   | Some e \<Rightarrow> T_fatal e)]\<rparr>)
         | T_fatal e \<Rightarrow> Some (s\<lparr>trace := trace s @ [PanicMsg e], status := Exited 2\<rparr>)
         | T_returned \<Rightarrow> None)
      else None)"

text \<open>One step of the goroutine chosen by the scheduler; nothing runs after the exit.\<close>

definition step :: "config \<Rightarrow> tid \<Rightarrow> state \<Rightarrow> state option" where
  "step cfg t s =
     (if status s \<noteq> Running then None
      else (case t of
              Main \<Rightarrow> step_main cfg s
            | Dispatcher \<Rightarrow> step_disp cfg s
            | Consumer \<Rightarrow> step_cons cfg s
            | Task p \<Rightarrow> step_task cfg p s))"

text \<open>
  A schedule is the list of goroutines in the order in which they take their steps;
  it is refused (\<open>None\<close>) if it picks a goroutine that cannot move.
\<close>

fun run :: "config \<Rightarrow> tid list \<Rightarrow> state \<Rightarrow> state option" where
  "run cfg [] s = Some s"
| "run cfg (t # ts) s = (case step cfg t s of None \<Rightarrow> None | Some s' \<Rightarrow> run cfg ts s')"

definition exec :: "config \<Rightarrow> tid list \<Rightarrow> state option" where
  "exec cfg sched = run cfg sched (init cfg)"

section \<open>The variant of src/unnamed/part_000 (lines 44-97 and 123-162)\<close>

text \<open>
  The second source file has the same types, the same \<^verbatim>\<open>formatCategories\<close> and the
  same body of the page goroutine, and differs in who waits and who closes:
  \<^verbatim>\<open>fetchProducts\<close> itself defers \<^verbatim>\<open>wg.Done()\<close> (line 73), \<^verbatim>\<open>main\<close> closes
  \<^verbatim>\<open>productsChan\<close> after \<^verbatim>\<open>wg.Wait()\<close> (lines 65-66), and \<^verbatim>\<open>writeCSV\<close> ranges over the
  channel in a goroutine of its own, which signals on the unbuffered channel
  \<^verbatim>\<open>done\<close> when it has returned.

  \<^item> \<^verbatim>\<open>main\<close>: \<^verbatim>\<open>wg.Add(1)\<close> (line 52), \<^verbatim>\<open>go fetchProducts\<close> (55), \<^verbatim>\<open>go func\<close> (57),
    \<^verbatim>\<open>wg.Wait()\<close> (65), \<^verbatim>\<open>close(productsChan)\<close> (66), \<^verbatim>\<open><-done\<close> (68), \<^verbatim>\<open>Println\<close> (69).
  \<^item> \<^verbatim>\<open>fetchProducts\<close>: the loop test and \<^verbatim>\<open>sem <- struct{}{}\<close> (76-77), \<^verbatim>\<open>wg.Add(1)\<close>
    (78), \<^verbatim>\<open>go func(page)\<close> (80), the deferred \<^verbatim>\<open>wg.Done()\<close> (73).
  \<^item> the goroutine of lines 57-62: \<^verbatim>\<open>os.Create\<close> and the header (124-137), the
    \<^verbatim>\<open>range\<close> loop writing the rows of each batch received (140-159), with the
    number of calls of \<^verbatim>\<open>writer.Write\<close> so far, and \<^verbatim>\<open>done <- struct{}{}\<close> (61).
\<close>

datatype main0_pc = P_add | P_go_fetch | P_go_writer | P_wait | P_close | P_recv_done
  | P_println | P_returned

datatype disp0_pc = F_idle | F_loop nat | F_add nat | F_go nat | F_done | F_returned

datatype writer0_pc = W_idle | W_open | W_range nat | W_signal | W_returned

datatype tid0 = Main0 | Dispatcher0 | Writer0 | Task0 nat

record state0 =
  status0 :: status
  main0 :: main0_pc
  disp0 :: disp0_pc
  writer0 :: writer0_pc
  tasks0 :: "task_pc list"
  wg0 :: int
  sem0 :: nat
  chan0 :: "Product list list"
  closed0 :: bool
  done0 :: bool
  csv_file0 :: "string list list option"
  trace0 :: "event list"

definition init0 :: "config \<Rightarrow> state0" where
  "init0 cfg =
     \<lparr>status0 = Running, main0 = P_add, disp0 = F_idle, writer0 = W_idle,
      tasks0 = replicate (pageMax cfg) T_idle, wg0 = 0, sem0 = 0, chan0 = [], closed0 = False,
      done0 = False, csv_file0 = None, trace0 = []\<rparr>"

text \<open>
  \<^verbatim>\<open><-done\<close> returns when the writer goroutine has sent; \<open>done0\<close> records that the
  send has happened.
\<close>

definition step_main0 :: "config \<Rightarrow> state0 \<Rightarrow> state0 option" where
  "step_main0 cfg s =
     (case main0 s of
        P_add \<Rightarrow> Some (s\<lparr>wg0 := wg0 s + 1, main0 := P_go_fetch\<rparr>)
      | P_go_fetch \<Rightarrow> Some (s\<lparr>disp0 := F_loop 0, main0 := P_go_writer\<rparr>)
      | P_go_writer \<Rightarrow> Some (s\<lparr>writer0 := W_open, main0 := P_wait\<rparr>)
      | P_wait \<Rightarrow> if wg0 s = 0 then Some (s\<lparr>main0 := P_close\<rparr>) else None
      | P_close \<Rightarrow>
          if closed0 s
          then Some (s\<lparr>trace0 := trace0 s @ [PanicMsg CloseOfClosedChannel], status0 := Exited 2\<rparr>)
          else Some (s\<lparr>closed0 := True, trace0 := trace0 s @ [ChanClosed],
                       main0 := P_recv_done\<rparr>)
      | P_recv_done \<Rightarrow> if done0 s then Some (s\<lparr>main0 := P_println\<rparr>) else None
      | P_println \<Rightarrow>
          Some (s\<lparr>trace0 := trace0 s @ [PrintDone], main0 := P_returned, status0 := Exited 0\<rparr>)
      | P_returned \<Rightarrow> None)"

definition step_disp0 :: "config \<Rightarrow> state0 \<Rightarrow> state0 option" where
  "step_disp0 cfg s =
     (case disp0 s of
        F_idle \<Rightarrow> None
      | F_loop page \<Rightarrow>
          if page < pageMax cfg
          then (if sem0 s < maxConcurrent cfg
                then Some (s\<lparr>sem0 := sem0 s + 1, disp0 := F_add page\<rparr>)
                else None)
          else Some (s\<lparr>disp0 := F_done\<rparr>)
      | F_add page \<Rightarrow> Some (s\<lparr>wg0 := wg0 s + 1, disp0 := F_go page\<rparr>)
      | F_go page \<Rightarrow>
          Some (s\<lparr>tasks0 := (tasks0 s)[page := T_fetch], trace0 := trace0 s @ [Spawned page],
                  disp0 := F_loop (page + 1)\<rparr>)
      | F_done \<Rightarrow>
          if wg0 s - 1 < 0
          then Some (s\<lparr>wg0 := wg0 s - 1,
                       trace0 := trace0 s @ [PanicMsg NegativeWaitGroupCounter],
                       status0 := Exited 2\<rparr>)
          else Some (s\<lparr>wg0 := wg0 s - 1, disp0 := F_returned\<rparr>)
      | F_returned \<Rightarrow> None)"

text \<open>
  \<^verbatim>\<open>writeCSV\<close> of this file takes the channel: it creates the file and writes the
  header, then writes the rows of each batch it receives (the loop body of lines
  141-157 is that of \<open>writeCSV_loop\<close>), and returns \<^verbatim>\<open>nil\<close> when the channel is closed
  and empty. An error it returns is fatal (line 59).
\<close>

definition step_writer0 :: "config \<Rightarrow> state0 \<Rightarrow> state0 option" where
  "step_writer0 cfg s =
     (case writer0 s of
        W_idle \<Rightarrow> None
      | W_open \<Rightarrow>
          if \<not> create_ok (csv_env cfg)
          then Some (s\<lparr>trace0 := trace0 s @ [LogFatalCSV CreateError], status0 := Exited 1\<rparr>)
          else if \<not> write_ok (csv_env cfg) 0
          then Some (s\<lparr>csv_file0 := Some [], trace0 := trace0 s @ [LogFatalCSV WriteError],
                       status0 := Exited 1\<rparr>)
          else Some (s\<lparr>csv_file0 := Some [csv_header], writer0 := W_range 1\<rparr>)
      | W_range i \<Rightarrow>
          (case chan0 s of
             products # rest \<Rightarrow>
               (case writeCSV_loop (write_ok (csv_env cfg)) i products
                       (case csv_file0 s of None \<Rightarrow> [] | Some f \<Rightarrow> f) of
                  (Returned_nil, f) \<Rightarrow>
                    Some (s\<lparr>chan0 := rest, csv_file0 := Some f,
                            writer0 := W_range (i + length products)\<rparr>)
                | (Err e, f) \<Rightarrow>
                    Some (s\<lparr>chan0 := rest, csv_file0 := Some f,
                            trace0 := trace0 s @ [LogFatalCSV e], status0 := Exited 1\<rparr>)
                | (Panics p, f) \<Rightarrow>
                    Some (s\<lparr>chan0 := rest, csv_file0 := Some f,
                            trace0 := trace0 s @ [PanicMsg p], status0 := Exited 2\<rparr>))
           | [] \<Rightarrow> if closed0 s then Some (s\<lparr>writer0 := W_signal\<rparr>) else None)
      | W_signal \<Rightarrow>
          if main0 s = P_recv_done then Some (s\<lparr>done0 := True, writer0 := W_returned\<rparr>)
          else None
      | W_returned \<Rightarrow> None)"

text \<open>The page goroutine of lines 80-95, the same text as lines 93-108 of main.go.\<close>

definition step_task0 :: "config \<Rightarrow> nat \<Rightarrow> state0 \<Rightarrow> state0 option" where
  "step_task0 cfg p s =
     (if p < length (tasks0 s) then
        (case tasks0 s ! p of
           T_idle \<Rightarrow> None
         | T_fetch \<Rightarrow>
             (case fetchData cfg p of
                Inl e \<Rightarrow>
                  Some (s\<lparr>tasks0 := (tasks0 s)[p := T_release None],
                          trace0 := trace0 s @ [Fetched p, LogFetchError p e]\<rparr>)
              | Inr products \<Rightarrow>
                  Some (s\<lparr>tasks0 := (tasks0 s)[p := T_send products],
                          trace0 := trace0 s @ [Fetched p, LogPage p (length products)]\<rparr>))
         | T_send products \<Rightarrow>
             if closed0 s
             then Some (s\<lparr>tasks0 := (tasks0 s)[p := T_release (Some SendOnClosedChannel)]\<rparr>)
             else if length (chan0 s) < maxConcurrent cfg
             then Some (s\<lparr>chan0 := chan0 s @ [products],
                          tasks0 := (tasks0 s)[p := T_release None],
                          trace0 := trace0 s @ [Sent p]\<rparr>)
             else None
         | T_release panicking \<Rightarrow>
             if sem0 s > 0
             then Some (s\<lparr>sem0 := sem0 s - 1, tasks0 := (tasks0 s)[p := T_done panicking]\<rparr>)
             else None
         | T_done panicking \<Rightarrow>
             if wg0 s - 1 < 0
             then Some (s\<lparr>wg0 := wg0 s - 1,
                          trace0 := trace0 s @ [PanicMsg NegativeWaitGroupCounter],
                          status0 := Exited 2\<rparr>)
             else Some (s\<lparr>wg0 := wg0 s - 1,
                          tasks0 := (tasks0 s)[p := (case panicking of None \<Rightarrow> T_returned
                                                     | Some e \<Rightarrow> T_fatal e)]\<rparr>)
         | T_fatal e \<Rightarrow> Some (s\<lparr>trace0 := trace0 s @ [PanicMsg e], status0 := Exited 2\<rparr>)
         | T_returned \<Rightarrow> None)
      else None)"

definition step0 :: "config \<Rightarrow> tid0 \<Rightarrow> state0 \<Rightarrow> state0 option" where
  "step0 cfg t s =
     (if status0 s \<noteq> Running then None
      else (case t of
              Main0 \<Rightarrow> step_main0 cfg s
            | Dispatcher0 \<Rightarrow> step_disp0 cfg s
            | Writer0 \<Rightarrow> step_writer0 cfg s
            | Task0 p \<Rightarrow> step_task0 cfg p s))"

fun run0 :: "config \<Rightarrow> tid0 list \<Rightarrow> state0 \<Rightarrow> state0 option" where
  "run0 cfg [] s = Some s"
| "run0 cfg (t # ts) s = (case step0 cfg t s of None \<Rightarrow> None | Some s' \<Rightarrow> run0 cfg ts s')"

definition exec0 :: "config \<Rightarrow> tid0 list \<Rightarrow> state0 option" where
  "exec0 cfg sched = run0 cfg sched (init0 cfg)"

section \<open>Auxiliary definitions for the statements\<close>

text \<open>The row that \<^verbatim>\<open>writeCSV\<close> builds for a product, as a relation.\<close>

definition is_csv_row :: "Product \<Rightarrow> string list \<Rightarrow> bool" where
  "is_csv_row product row \<longleftrightarrow>
     (\<exists>categories. formatCategories (Categories product) = Inr categories \<and>
        row = [Title product, PublicationDate (CustomAttributes product), URL product, Type product,
               Language product, categories, CoverImage product,
               sprintf_v (Publishers (CustomAttributes product)), sprintf_v (Authors product)])"

text \<open>Concrete inputs on which the theorems are exercised.\<close>

definition example_product :: Product where
  "example_product =
     \<lparr>ProductID = ''9781492077213'', URL = ''/library/view/learning-go/9781492077206/'',
      Language = ''en'', Title = ''Learning Go'', Type = ''book'', Description = [],
      Categories = [[''Programming'', ''Go''], [''Web'']], CoverImage = ''cover.jpg'',
      CustomAttributes = \<lparr>Publishers = [''OReilly Media''], PublicationDate = ''2021-03-02''\<rparr>,
      Authors = [''Jon Bodner'']\<rparr>"

definition io_ok :: io_env where
  "io_ok = \<lparr>create_ok = True, write_ok = (\<lambda>i. True)\<rparr>"

text \<open>
  A page goroutine holds a token of \<^verbatim>\<open>sem\<close> from its launch until its deferred
  \<^verbatim>\<open><-sem\<close> has run; the dispatcher holds one between \<^verbatim>\<open>sem <- struct{}{}\<close> and
  the \<^verbatim>\<open>go\<close> statement. \<open>frontier\<close> is the next page the loop will launch, and
  \<open>spawned\<close> lists the pages of the goroutines launched, in the order of launch.
\<close>

fun holds_slot :: "task_pc \<Rightarrow> bool" where
  "holds_slot T_fetch = True"
| "holds_slot (T_send products) = True"
| "holds_slot (T_release panicking) = True"
| "holds_slot t = False"

fun launching :: "disp_pc \<Rightarrow> bool" where
  "launching (D_add page) = True"
| "launching (D_go page) = True"
| "launching d = False"

fun frontier :: "config \<Rightarrow> disp_pc \<Rightarrow> nat" where
  "frontier cfg D_idle = 0"
| "frontier cfg (D_loop page) = page"
| "frontier cfg (D_add page) = page"
| "frontier cfg (D_go page) = page"
| "frontier cfg d = pageMax cfg"

fun spawned :: "event list \<Rightarrow> nat list" where
  "spawned [] = []"
| "spawned (Spawned page # es) = page # spawned es"
| "spawned (e # es) = spawned es"

fun dispatch_finished :: "disp_pc \<Rightarrow> bool" where
  "dispatch_finished D_close = True"
| "dispatch_finished (D_done panicking) = True"
| "dispatch_finished (D_fatal e) = True"
| "dispatch_finished D_returned = True"
| "dispatch_finished d = False"

text \<open>The invariant that ties the tokens of \<^verbatim>\<open>sem\<close> to the goroutines in flight.\<close>

definition slots_ok ::
  "config \<Rightarrow> main_pc \<Rightarrow> disp_pc \<Rightarrow> task_pc list \<Rightarrow> nat \<Rightarrow> nat list \<Rightarrow> bool" where
  "slots_ok cfg m d ts n sp \<longleftrightarrow>
     length ts = pageMax cfg \<and>
     (d = D_idle) = (m = M_add_fetch \<or> m = M_go_fetch) \<and>
     frontier cfg d \<le> pageMax cfg \<and>
     (launching d \<longrightarrow> frontier cfg d < pageMax cfg) \<and>
     (\<forall>q < pageMax cfg. (frontier cfg d \<le> q) = (ts ! q = T_idle)) \<and>
     n = length (filter holds_slot ts) + (if launching d then 1 else 0) \<and>
     n \<le> maxConcurrent cfg \<and>
     sp = [0 ..< frontier cfg d]"

definition slots_inv :: "config \<Rightarrow> state \<Rightarrow> bool" where
  "slots_inv cfg s = slots_ok cfg (main_pc s) (disp_pc s) (tasks s) (sem s) (spawned (trace s))"

text \<open>
  A run of two pages with one slot: page 0 is fetched, page 1 fails in transport.
\<close>

definition example_cfg :: config where
  "example_cfg =
     \<lparr>pageMax = 2, maxConcurrent = 1,
      fetchData = (\<lambda>page. if page = 0 then Inr [example_product] else Inl TransportError),
      csv_env = io_ok, md_env = io_ok\<rparr>"

text \<open>A run of a single page, whose fetch succeeds with one product.\<close>

definition one_page_cfg :: config where
  "one_page_cfg =
     \<lparr>pageMax = 1, maxConcurrent = 5, fetchData = (\<lambda>page. Inr [example_product]),
      csv_env = io_ok, md_env = io_ok\<rparr>"

text \<open>
  The schedule in which the goroutine of lines 55-59 runs up to and including
  \<^verbatim>\<open>close(productsChan)\<close> before the goroutine of page 0 takes its first step.
\<close>

definition close_first :: "tid list" where
  "close_first = [Main, Main, Main, Main,
                  Dispatcher, Dispatcher, Dispatcher, Dispatcher, Dispatcher]"

text \<open>
  A schedule of \<open>example_cfg\<close>: page 0 is launched and runs to its end, then page 1
  is launched.
\<close>

definition page1_launched :: "tid list" where
  "page1_launched = [Main, Main, Main, Main, Dispatcher, Dispatcher, Dispatcher,
                     Task 0, Task 0, Task 0, Task 0, Dispatcher, Dispatcher, Dispatcher]"

text \<open>A complete run of \<open>example_cfg\<close>, which exits with status 0.\<close>

definition example_run :: "tid list" where
  "example_run = page1_launched @
     [Task 1, Task 1, Task 1, Dispatcher, Dispatcher, Dispatcher,
      Consumer, Consumer, Consumer, Main, Main, Main, Main]"

text \<open>
  The counter of the \<^verbatim>\<open>WaitGroup\<close>: one for each page goroutine between its
  \<^verbatim>\<open>wg.Add(1)\<close> and its deferred \<^verbatim>\<open>wg.Done()\<close>, one for the goroutine of lines 55-59
  and one for the goroutine of lines 62-67, each from the \<^verbatim>\<open>wg.Add(1)\<close> of
  \<^verbatim>\<open>main\<close> to its own \<^verbatim>\<open>wg.Done()\<close>.
\<close>

fun pending :: "task_pc \<Rightarrow> bool" where
  "pending T_fetch = True"
| "pending (T_send products) = True"
| "pending (T_release panicking) = True"
| "pending (T_done panicking) = True"
| "pending t = False"

fun adding :: "disp_pc \<Rightarrow> bool" where
  "adding (D_go page) = True"
| "adding d = False"

fun disp_done :: "disp_pc \<Rightarrow> bool" where
  "disp_done D_returned = True"
| "disp_done (D_fatal e) = True"
| "disp_done d = False"

fun cons_done :: "cons_pc \<Rightarrow> bool" where
  "cons_done C_returned = True"
| "cons_done c = False"

fun before_add_fetch :: "main_pc \<Rightarrow> bool" where
  "before_add_fetch M_add_fetch = True"
| "before_add_fetch m = False"

fun before_add_drain :: "main_pc \<Rightarrow> bool" where
  "before_add_drain M_add_fetch = True"
| "before_add_drain M_go_fetch = True"
| "before_add_drain M_add_drain = True"
| "before_add_drain m = False"

fun before_go_drain :: "main_pc \<Rightarrow> bool" where
  "before_go_drain M_go_drain = True"
| "before_go_drain m = before_add_drain m"

definition wg_ok :: "main_pc \<Rightarrow> disp_pc \<Rightarrow> cons_pc \<Rightarrow> task_pc list \<Rightarrow> int \<Rightarrow> bool" where
  "wg_ok m d c ts w \<longleftrightarrow>
     (c = C_idle) = before_go_drain m \<and>
     w = int (length (filter pending ts)) + (if adding d then 1 else 0)
         + (if \<not> before_add_fetch m \<and> \<not> disp_done d then 1 else 0)
         + (if \<not> before_add_drain m \<and> \<not> cons_done c then 1 else 0)"

definition wg_inv :: "state \<Rightarrow> bool" where
  "wg_inv s = wg_ok (main_pc s) (disp_pc s) (cons_pc s) (tasks s) (wg s)"

text \<open>
  The history of one page goroutine, read from its program point: whether it has
  called \<^verbatim>\<open>fetchData\<close>, whether it is unwinding without a panic (after a send, or
  after the early \<^verbatim>\<open>return\<close> of line 101), and the panic it is unwinding with.
\<close>

definition task_at :: "task_pc list \<Rightarrow> nat \<Rightarrow> task_pc" where
  "task_at ts p = (if p < length ts then ts ! p else T_idle)"

fun fetched :: "task_pc \<Rightarrow> bool" where
  "fetched T_idle = False"
| "fetched T_fetch = False"
| "fetched t = True"

fun after_normal :: "task_pc \<Rightarrow> bool" where
  "after_normal (T_release None) = True"
| "after_normal (T_done None) = True"
| "after_normal T_returned = True"
| "after_normal t = False"

fun panic_of :: "task_pc \<Rightarrow> go_panic option" where
  "panic_of (T_release panicking) = panicking"
| "panic_of (T_done panicking) = panicking"
| "panic_of (T_fatal e) = Some e"
| "panic_of t = None"

fun sending :: "task_pc \<Rightarrow> Product list option" where
  "sending (T_send products) = Some products"
| "sending t = None"

text \<open>Events that no goroutine but a page goroutine produces.\<close>

fun quiet :: "event list \<Rightarrow> bool" where
  "quiet [] = True"
| "quiet (Fetched p # es) = False"
| "quiet (Sent p # es) = False"
| "quiet (e # es) = quiet es"

text \<open>
  The invariant of the goroutine of page \<open>p\<close>: it calls \<^verbatim>\<open>fetchData\<close> once; if the
  fetch fails it logs the error and never sends; if the fetch succeeds it logs the
  page and sends the products fetched, once, unless the channel is closed, in which
  case it panics.
\<close>

definition task_ok :: "config \<Rightarrow> nat \<Rightarrow> task_pc \<Rightarrow> event list \<Rightarrow> bool \<Rightarrow> bool" where
  "task_ok cfg p t tr cl \<longleftrightarrow>
     count_list tr (Fetched p) = (if fetched t then 1 else 0) \<and>
     (case fetchData cfg p of
        Inl e \<Rightarrow>
          count_list tr (Sent p) = 0 \<and> (fetched t \<longrightarrow> LogFetchError p e \<in> set tr) \<and>
          sending t = None \<and> panic_of t = None
      | Inr b \<Rightarrow>
          count_list tr (Sent p) = (if after_normal t then 1 else 0) \<and>
          (fetched t \<longrightarrow> LogPage p (length b) \<in> set tr) \<and>
          (sending t = None \<or> sending t = Some b) \<and>
          (panic_of t = None \<or> panic_of t = Some SendOnClosedChannel \<and> cl))"

definition tasks_inv :: "config \<Rightarrow> state \<Rightarrow> bool" where
  "tasks_inv cfg s \<longleftrightarrow> (\<forall>p. task_ok cfg p (task_at (tasks s) p) (trace s) (closed s))"

text \<open>Whether the log holds the line of \<^verbatim>\<open>log.Fatalf\<close> of line 76, or of line 80.\<close>

fun csv_failed :: "event list \<Rightarrow> bool" where
  "csv_failed [] = False"
| "csv_failed (LogFatalCSV e # es) = True"
| "csv_failed (e # es) = csv_failed es"

fun md_failed :: "event list \<Rightarrow> bool" where
  "md_failed [] = False"
| "md_failed (LogFatalMarkdown e # es) = True"
| "md_failed (e # es) = md_failed es"






text \<open>The schedule of a run without pages, up to the return of \<^verbatim>\<open>wg.Wait()\<close>.\<close>

definition no_pages_waited :: "tid list" where
  "no_pages_waited = [Main, Main, Main, Main, Dispatcher, Dispatcher, Dispatcher,
                      Consumer, Consumer, Main]"

text \<open>
  What holds throughout a run without pages: no page goroutine exists, nothing is
  sent or aggregated, and a file that exists was written from the empty collection.
\<close>

definition zero_ok :: "config \<Rightarrow> state \<Rightarrow> bool" where
  "zero_ok cfg s \<longleftrightarrow>
     tasks s = [] \<and> chan s = [] \<and> allProducts s = [] \<and>
     (csv_file s = None \<or> csv_file s = snd (writeCSV (csv_env cfg) [])) \<and>
     (md_file s = None \<or> md_file s = snd (writeMarkdown (md_env cfg) []))"

text \<open>The complete schedule of a run without pages.\<close>

definition no_pages_run :: "tid list" where
  "no_pages_run = no_pages_waited @ [Main, Main, Main]"

definition no_pages_cfg :: config where
  "no_pages_cfg =
     \<lparr>pageMax = 0, maxConcurrent = 5, fetchData = (\<lambda>page. Inl TransportError),
      csv_env = io_ok, md_env = io_ok\<rparr>"

text \<open>
  The barrier \<^verbatim>\<open>wg.Wait()\<close> of line 69 and the end of the \<^verbatim>\<open>range\<close> loop: once
  \<^verbatim>\<open>main\<close> is past the barrier the counter is 0, and once the loop of lines 64-66
  is over the channel is closed and empty.
\<close>

fun after_wait :: "main_pc \<Rightarrow> bool" where
  "after_wait M_writeCSV = True"
| "after_wait M_writeMarkdown = True"
| "after_wait M_println = True"
| "after_wait M_returned = True"
| "after_wait m = False"

fun cons_finished :: "cons_pc \<Rightarrow> bool" where
  "cons_finished C_done = True"
| "cons_finished C_returned = True"
| "cons_finished c = False"

definition barrier_ok ::
  "main_pc \<Rightarrow> cons_pc \<Rightarrow> int \<Rightarrow> bool \<Rightarrow> Product list list \<Rightarrow> bool" where
  "barrier_ok m c w cl ch \<longleftrightarrow> (after_wait m \<longrightarrow> w = 0) \<and> (cons_finished c \<longrightarrow> cl \<and> ch = [])"

definition barrier_inv :: "state \<Rightarrow> bool" where
  "barrier_inv s = barrier_ok (main_pc s) (cons_pc s) (wg s) (closed s) (chan s)"

text \<open>
  The pages whose batch has been sent, in the order of the sends, and the batch of
  a page (empty if its fetch fails). The channel is a queue and the loop of lines
  64-66 appends in the order of receipt, so \<^verbatim>\<open>allProducts\<close> followed by the buffered
  batches is the concatenation of the batches sent.
\<close>

fun sent :: "event list \<Rightarrow> nat list" where
  "sent [] = []"
| "sent (Sent p # es) = p # sent es"
| "sent (e # es) = sent es"

definition batch :: "config \<Rightarrow> nat \<Rightarrow> Product list" where
  "batch cfg p = (case fetchData cfg p of Inl e \<Rightarrow> [] | Inr products \<Rightarrow> products)"

definition data_inv :: "config \<Rightarrow> state \<Rightarrow> bool" where
  "data_inv cfg s \<longleftrightarrow>
     allProducts s @ concat (chan s) = concat (map (batch cfg) (sent (trace s)))"

text \<open>The invariant of the variant of src/unnamed/part_000.\<close>

fun frontier0 :: "config \<Rightarrow> disp0_pc \<Rightarrow> nat" where
  "frontier0 cfg F_idle = 0"
| "frontier0 cfg (F_loop page) = page"
| "frontier0 cfg (F_add page) = page"
| "frontier0 cfg (F_go page) = page"
| "frontier0 cfg d = pageMax cfg"

fun launching0 :: "disp0_pc \<Rightarrow> bool" where
  "launching0 (F_add page) = True"
| "launching0 (F_go page) = True"
| "launching0 d = False"

fun adding0 :: "disp0_pc \<Rightarrow> bool" where
  "adding0 (F_go page) = True"
| "adding0 d = False"

fun waited0 :: "main0_pc \<Rightarrow> bool" where
  "waited0 P_close = True"
| "waited0 P_recv_done = True"
| "waited0 P_println = True"
| "waited0 P_returned = True"
| "waited0 m = False"

fun closing0 :: "main0_pc \<Rightarrow> bool" where
  "closing0 P_recv_done = True"
| "closing0 P_println = True"
| "closing0 P_returned = True"
| "closing0 m = False"

definition variant_ok ::
  "config \<Rightarrow> main0_pc \<Rightarrow> disp0_pc \<Rightarrow> task_pc list \<Rightarrow> int \<Rightarrow> bool \<Rightarrow> bool" where
  "variant_ok cfg m d ts w cl \<longleftrightarrow>
     length ts = pageMax cfg \<and>
     (d = F_idle) = (m = P_add \<or> m = P_go_fetch) \<and>
     frontier0 cfg d \<le> pageMax cfg \<and>
     (launching0 d \<longrightarrow> frontier0 cfg d < pageMax cfg) \<and>
     (\<forall>q < pageMax cfg. (frontier0 cfg d \<le> q) = (ts ! q = T_idle)) \<and>
     w = int (length (filter pending ts)) + (if adding0 d then 1 else 0)
         + (if m \<noteq> P_add \<and> d \<noteq> F_returned then 1 else 0) \<and>
     (waited0 m \<longrightarrow> w = 0) \<and>
     cl = closing0 m \<and>
     (\<forall>q < pageMax cfg. panic_of (ts ! q) = None)"

definition variant_inv :: "config \<Rightarrow> state0 \<Rightarrow> bool" where
  "variant_inv cfg s = variant_ok cfg (main0 s) (disp0 s) (tasks0 s) (wg0 s) (closed0 s)"

section \<open>formatCategories\<close>

lemma loop_suffix:
  "formatted = [] \<or> (\<exists>pre. formatted = pre @ '' > '') \<Longrightarrow>
   formatCategories_loop categories formatted = [] \<or>
   (\<exists>pre. formatCategories_loop categories formatted = pre @ '' > '')"
proof (induction categories arbitrary: formatted)
  case Nil
  then show ?case by simp
next
  case (Cons category rest)
  show ?case
  proof (cases "length category > 0")
    case True
    have "\<exists>pre. formatted @ (category ! 0) @ '' > '' = pre @ '' > ''"
      by (rule exI [of _ "formatted @ (category ! 0)"]) simp
    then show ?thesis using True Cons.IH [of "formatted @ (category ! 0) @ '' > ''"] by simp
  next
    case False
    then show ?thesis using Cons by simp
  qed
qed

lemma loop_length:
  "formatCategories_loop categories [] = [] \<or> 3 \<le> length (formatCategories_loop categories [])"
  using loop_suffix [of "[]" categories] by auto

lemma formatCategories_Inr:
  "formatCategories categories =
     Inr (take (length (formatCategories_loop categories []) - 3) (formatCategories_loop categories []))"
  using loop_length [of categories]
  by (auto simp add: formatCategories_def Let_def nat_diff_distrib')

lemma loop_filter:
  "formatCategories_loop (filter (\<lambda>category. length category > 0) categories) formatted =
   formatCategories_loop categories formatted"
  by (induction categories arbitrary: formatted) simp_all

text \<open>
  Claim C4. \<^verbatim>\<open>formatCategories\<close> applied to the forest \<^verbatim>\<open>[["Programming","Go"], ["Web"]]\<close>
  returns \<^verbatim>\<open>"Programming > Web"\<close>, and applied to the empty forest it returns the
  empty string.
\<close>

theorem formatCategories_examples:
  "formatCategories [[''Programming'', ''Go''], [''Web'']] = Inr ''Programming > Web'' \<and>
   formatCategories [] = Inr []"
  by (simp add: formatCategories_def)

text \<open>
  Claim C10. \<^verbatim>\<open>formatCategories\<close> never panics: it returns a string for every
  forest; a category path without labels contributes nothing (removing all of them,
  or any one of them, leaves the result unchanged); and whenever the accumulated
  string is not empty it has at least 3 bytes and ends in \<^verbatim>\<open>" > "\<close>, so the trim
  \<^verbatim>\<open>formatted[:len(formatted)-3]\<close> is in bounds.
\<close>

theorem formatCategories_total:
  "(\<exists>s. formatCategories categories = Inr s) \<and>
   formatCategories (filter (\<lambda>category. length category > 0) categories) = formatCategories categories \<and>
   formatCategories (before @ [] # after) = formatCategories (before @ after) \<and>
   (length (formatCategories_loop categories []) > 0 \<longrightarrow>
      3 \<le> length (formatCategories_loop categories []) \<and>
      drop (length (formatCategories_loop categories []) - 3) (formatCategories_loop categories []) = '' > '')"
proof -
  let ?f = "formatCategories_loop categories []"
  have a: "\<exists>s. formatCategories categories = Inr s"
    using formatCategories_Inr [of categories] by blast
  have b: "formatCategories (filter (\<lambda>category. length category > 0) categories) = formatCategories categories"
    by (simp only: formatCategories_def loop_filter)
  have "formatCategories_loop (before @ [] # after) formatted = formatCategories_loop (before @ after) formatted"
    for formatted
    by (induction before arbitrary: formatted) simp_all
  then have c: "formatCategories (before @ [] # after) = formatCategories (before @ after)"
    by (simp only: formatCategories_def)
  have d: "3 \<le> length ?f \<and> drop (length ?f - 3) ?f = '' > ''" if "length ?f > 0"
  proof -
    from that loop_suffix [of "[]" categories] obtain pre where "?f = pre @ '' > ''" by auto
    then show ?thesis by simp
  qed
  from a b c d show ?thesis by blast
qed

theorem formatCategories_total_witness:
  "length (formatCategories_loop [[], [''Go'']] []) > 0 \<and>
   formatCategories [[], [''Go'']] = Inr ''Go'' \<and>
   3 \<le> length (formatCategories_loop [[], [''Go'']] []) \<and>
   drop (length (formatCategories_loop [[], [''Go'']] []) - 3) (formatCategories_loop [[], [''Go'']] []) = '' > ''"
  using formatCategories_total [of "[[], [''Go'']]"] by (simp add: formatCategories_def)

section \<open>The CSV writer\<close>

lemma csv_row_total:
  "\<exists>categories. formatCategories (Categories product) = Inr categories \<and>
     csv_row product =
       Inr [Title product, PublicationDate (CustomAttributes product), URL product, Type product,
            Language product, categories, CoverImage product,
            sprintf_v (Publishers (CustomAttributes product)), sprintf_v (Authors product)]"
  using formatCategories_Inr [of "Categories product"] by (simp add: csv_row_def)

lemma writeCSV_loop_ok:
  "\<forall>i. ok i \<Longrightarrow>
   \<exists>rows. writeCSV_loop ok i products out = (Returned_nil, out @ rows) \<and>
          list_all2 is_csv_row products rows"
proof (induction products arbitrary: i out)
  case Nil
  then show ?case by simp
next
  case (Cons product rest)
  from csv_row_total [of product] obtain row where
    row: "csv_row product = Inr row" "is_csv_row product row"
    unfolding is_csv_row_def by blast
  from Cons.IH [OF Cons.prems, of "Suc i" "out @ [row]"] obtain rows where
    rows: "writeCSV_loop ok (Suc i) rest (out @ [row]) = (Returned_nil, (out @ [row]) @ rows)"
      "list_all2 is_csv_row rest rows" by blast
  have "writeCSV_loop ok i (product # rest) out = (Returned_nil, out @ (row # rows))"
    using row(1) rows(1) Cons.prems by simp
  moreover have "list_all2 is_csv_row (product # rest) (row # rows)"
    using row(2) rows(2) by simp
  ultimately show ?case by blast
qed

text \<open>
  Claim C9. When the file can be created and written, \<^verbatim>\<open>writeCSV\<close> returns
  \<^verbatim>\<open>nil\<close> and the file holds the header row followed by one row per product, in the
  order of the products; each row has exactly 9 columns: Title, Publication Date,
  URL, Type, Language, the flattened categories, Cover Image, the publishers
  rendered by \<^verbatim>\<open>%v\<close>, the authors rendered by \<^verbatim>\<open>%v\<close>.
\<close>

theorem writeCSV_rows:
  assumes "create_ok env" and "\<forall>i. write_ok env i"
  shows "\<exists>rows. writeCSV env products = (Returned_nil, Some (csv_header # rows)) \<and>
           length rows = length products \<and>
           (\<forall>i < length products.
              length (rows ! i) = 9 \<and>
              (\<exists>categories. formatCategories (Categories (products ! i)) = Inr categories \<and>
                 rows ! i =
                   [Title (products ! i), PublicationDate (CustomAttributes (products ! i)),
                    URL (products ! i), Type (products ! i), Language (products ! i), categories,
                    CoverImage (products ! i),
                    sprintf_v (Publishers (CustomAttributes (products ! i))),
                    sprintf_v (Authors (products ! i))])) \<and>
           csv_header = [''Title'', ''Publication Date'', ''URL'', ''Type'', ''Language'',
                         ''Categories'', ''Cover Image'', ''Publishers'', ''Authors'']"
proof -
  from writeCSV_loop_ok [OF assms(2), of 1 products "[csv_header]"] obtain rows where
    rows: "writeCSV_loop (write_ok env) 1 products [csv_header] = (Returned_nil, [csv_header] @ rows)"
      "list_all2 is_csv_row products rows" by blast
  have w: "writeCSV env products = (Returned_nil, Some (csv_header # rows))"
    using assms rows(1) by (simp add: writeCSV_def)
  have len: "length rows = length products"
    using rows(2) by (simp add: list_all2_lengthD)
  have each: "is_csv_row (products ! i) (rows ! i)" if "i < length products" for i
    using rows(2) that by (simp add: list_all2_nthD)
  have "length (rows ! i) = 9 \<and>
        (\<exists>categories. formatCategories (Categories (products ! i)) = Inr categories \<and>
           rows ! i =
             [Title (products ! i), PublicationDate (CustomAttributes (products ! i)),
              URL (products ! i), Type (products ! i), Language (products ! i), categories,
              CoverImage (products ! i),
              sprintf_v (Publishers (CustomAttributes (products ! i))),
              sprintf_v (Authors (products ! i))])"
    if "i < length products" for i
    using each [OF that] unfolding is_csv_row_def by auto
  with w len show ?thesis by (simp add: csv_header_def)
qed

theorem writeCSV_rows_witness:
  "create_ok io_ok \<and> (\<forall>i. write_ok io_ok i) \<and>
   writeCSV io_ok [example_product] =
     (Returned_nil,
      Some [csv_header,
            [''Learning Go'', ''2021-03-02'', ''/library/view/learning-go/9781492077206/'', ''book'',
             ''en'', ''Programming > Web'', ''cover.jpg'', ''[OReilly Media]'',
             ''[Jon Bodner]'']])"
  using writeCSV_rows [of io_ok "[example_product]"]
  by (simp add: io_ok_def example_product_def writeCSV_def csv_row_def formatCategories_def
      sprintf_v_def)

lemma spawned_append [simp]: "spawned (es @ es') = spawned es @ spawned es'"
  by (induction es rule: spawned.induct) simp_all

lemma filter_update_length:
  "i < length xs \<Longrightarrow>
   length (filter P (xs[i := y])) + (if P (xs ! i) then 1 else 0) =
   length (filter P xs) + (if P y then 1 else 0)"
proof (induction xs arbitrary: i)
  case Nil
  then show ?case by simp
next
  case (Cons x xs)
  then show ?case by (cases i) auto
qed

lemma filter_update_same:
  "i < length xs \<Longrightarrow> P (xs ! i) = P y \<Longrightarrow> length (filter P (xs[i := y])) = length (filter P xs)"
  using filter_update_length [of i xs P y] by (simp split: if_splits)

lemma filter_update_gain:
  "i < length xs \<Longrightarrow> \<not> P (xs ! i) \<Longrightarrow> P y \<Longrightarrow>
   length (filter P (xs[i := y])) = Suc (length (filter P xs))"
  using filter_update_length [of i xs P y] by simp

lemma filter_update_lose:
  "i < length xs \<Longrightarrow> P (xs ! i) \<Longrightarrow> \<not> P y \<Longrightarrow>
   Suc (length (filter P (xs[i := y]))) = length (filter P xs)"
  using filter_update_length [of i xs P y] by simp

lemma filter_pos: "i < length xs \<Longrightarrow> P (xs ! i) \<Longrightarrow> 0 < length (filter P xs)"
  by (metis filter_empty_conv length_greater_0_conv nth_mem)

lemma idle_update:
  "\<forall>q<n. (k \<le> q) = (ts ! q = T_idle) \<Longrightarrow> ts ! p \<noteq> T_idle \<Longrightarrow> t \<noteq> T_idle \<Longrightarrow>
   \<forall>q<n. (k \<le> q) = (ts[p := t] ! q = T_idle)"
  by (cases "p < length ts") (auto simp add: nth_list_update list_update_beyond)

lemma slots_ok_task_same:
  assumes "slots_ok cfg m d ts n sp" and "p < length ts" and "ts ! p \<noteq> T_idle" and "t \<noteq> T_idle"
    and "holds_slot t = holds_slot (ts ! p)"
  shows "slots_ok cfg m d (ts[p := t]) n sp"
proof -
  have "length (filter holds_slot (ts[p := t])) = length (filter holds_slot ts)"
    using assms(2,5) by (simp add: filter_update_same)
  moreover have "\<forall>q<pageMax cfg. (frontier cfg d \<le> q) = (ts[p := t] ! q = T_idle)"
    using assms(1,3,4) idle_update [of "pageMax cfg" "frontier cfg d" ts p t]
    by (simp add: slots_ok_def)
  ultimately show ?thesis using assms(1) by (simp add: slots_ok_def)
qed

lemma slots_ok_task_release:
  assumes "slots_ok cfg m d ts n sp" and "p < length ts" and "holds_slot (ts ! p)"
    and "t \<noteq> T_idle" and "\<not> holds_slot t"
  shows "slots_ok cfg m d (ts[p := t]) (n - 1) sp \<and> 0 < n"
proof -
  from assms(1) have rest: "length ts = pageMax cfg"
    "(d = D_idle) = (m = M_add_fetch \<or> m = M_go_fetch)"
    "frontier cfg d \<le> pageMax cfg" "launching d \<longrightarrow> frontier cfg d < pageMax cfg"
    "sp = [0 ..< frontier cfg d]" "n \<le> maxConcurrent cfg"
    and n: "n = length (filter holds_slot ts) + (if launching d then 1 else 0)"
    and idle: "\<forall>q < pageMax cfg. (frontier cfg d \<le> q) = (ts ! q = T_idle)"
    by (simp_all add: slots_ok_def)
  have c: "Suc (length (filter holds_slot (ts[p := t]))) = length (filter holds_slot ts)"
    using assms(2,3,5) by (rule filter_update_lose)
  have "ts ! p \<noteq> T_idle" using assms(3) by auto
  then have idle': "\<forall>q<pageMax cfg. (frontier cfg d \<le> q) = (ts[p := t] ! q = T_idle)"
    using idle_update [OF idle _ assms(4)] by blast
  define k where "k = length (filter holds_slot ts)"
  define k' where "k' = length (filter holds_slot (ts[p := t]))"
  have "Suc k' = k" and "n = k + (if launching d then 1 else 0)"
    using c n by (simp_all add: k_def k'_def)
  with rest(6) have "n - 1 = k' + (if launching d then 1 else 0)"
    and pos: "0 < n" and le: "n - 1 \<le> maxConcurrent cfg"
    by (simp_all split: if_splits)
  then have n': "n - 1 = length (filter holds_slot (ts[p := t])) + (if launching d then 1 else 0)"
    by (simp add: k'_def)
  have "slots_ok cfg m d (ts[p := t]) (n - 1) sp"
    unfolding slots_ok_def using rest(1-5) idle' n' le by simp
  with pos show ?thesis by simp
qed

lemma slots_ok_spawn:
  assumes "slots_ok cfg m (D_go page) ts n sp"
  shows "slots_ok cfg m (D_loop (page + 1)) (ts[page := T_fetch]) n (sp @ [page])"
proof -
  from assms have a: "length ts = pageMax cfg" "page < pageMax cfg"
    "m \<noteq> M_add_fetch \<and> m \<noteq> M_go_fetch"
    "\<forall>q < pageMax cfg. (page \<le> q) = (ts ! q = T_idle)"
    "n = Suc (length (filter holds_slot ts))" "n \<le> maxConcurrent cfg"
    "sp = [0 ..< page]"
    by (simp_all add: slots_ok_def)
  from a(2,4) have idle: "ts ! page = T_idle" by auto
  have cnt: "length (filter holds_slot (ts[page := T_fetch])) = Suc (length (filter holds_slot ts))"
    using a(1,2) idle by (simp add: filter_update_gain)
  have fr: "\<forall>q < pageMax cfg. (Suc page \<le> q) = (ts[page := T_fetch] ! q = T_idle)"
  proof (intro allI impI)
    fix q assume q: "q < pageMax cfg"
    show "(Suc page \<le> q) = (ts[page := T_fetch] ! q = T_idle)"
    proof (cases "q = page")
      case True
      then show ?thesis using a(1,2) by simp
    next
      case False
      then have "ts[page := T_fetch] ! q = ts ! q" by simp
      moreover have "(page \<le> q) = (ts ! q = T_idle)" using a(4) q by blast
      ultimately show ?thesis using False by auto
    qed
  qed
  show ?thesis
    unfolding slots_ok_def using a cnt fr by simp
qed

lemma slots_ok_go:
  assumes "slots_ok cfg m (D_go page) ts n sp"
  shows "page < length ts" and "ts ! page = T_idle"
proof -
  from assms have a: "length ts = pageMax cfg" "page < pageMax cfg"
    "\<forall>q < pageMax cfg. (page \<le> q) = (ts ! q = T_idle)"
    by (simp_all add: slots_ok_def)
  from a(1,2) show "page < length ts" by simp
  from a(2,3) show "ts ! page = T_idle" by auto
qed

lemma slots_init: "slots_inv cfg (init cfg)"
  by (simp add: slots_inv_def slots_ok_def init_def)

lemma slots_main:
  assumes "slots_inv cfg s" and "step_main cfg s = Some s'"
  shows "slots_inv cfg s'"
proof -
  have frame: "tasks s' = tasks s \<and> sem s' = sem s \<and> spawned (trace s') = spawned (trace s) \<and>
      (main_pc s \<noteq> M_go_fetch \<longrightarrow> disp_pc s' = disp_pc s) \<and>
      (main_pc s = M_go_fetch \<longrightarrow> disp_pc s' = D_loop 0 \<and> main_pc s' = M_add_drain) \<and>
      (main_pc s = M_add_fetch \<longrightarrow> main_pc s' = M_go_fetch) \<and>
      (main_pc s \<noteq> M_go_fetch \<and> main_pc s \<noteq> M_add_fetch \<longrightarrow>
         main_pc s' \<noteq> M_go_fetch \<and> main_pc s' \<noteq> M_add_fetch)"
    using assms(2)
    by (cases "main_pc s")
       (auto simp add: step_main_def split: prod.splits write_result.splits if_splits)
  show ?thesis
  proof (cases "main_pc s = M_go_fetch")
    case True
    with assms(1) have "disp_pc s = D_idle" by (simp add: slots_inv_def slots_ok_def)
    with assms(1) True frame show ?thesis by (simp add: slots_inv_def slots_ok_def)
  next
    case False
    with assms(1) frame show ?thesis by (auto simp add: slots_inv_def slots_ok_def)
  qed
qed

lemma slots_cons:
  assumes "slots_inv cfg s" and "step_cons cfg s = Some s'"
  shows "slots_inv cfg s'"
proof -
  have "tasks s' = tasks s \<and> sem s' = sem s \<and> disp_pc s' = disp_pc s \<and>
        main_pc s' = main_pc s \<and> spawned (trace s') = spawned (trace s)"
    using assms(2)
    by (cases "cons_pc s") (auto simp add: step_cons_def split: list.splits if_splits)
  with assms(1) show ?thesis by (simp add: slots_inv_def)
qed

lemma slots_disp:
  assumes "slots_inv cfg s" and "step_disp cfg s = Some s'"
  shows "slots_inv cfg s'"
proof (cases "disp_pc s")
  case (D_go page)
  with assms(2) have s': "s' = s\<lparr>tasks := (tasks s)[page := T_fetch],
      trace := trace s @ [Spawned page], disp_pc := D_loop (page + 1)\<rparr>"
    by (simp add: step_disp_def)
  show ?thesis
    using assms(1) D_go slots_ok_spawn [of cfg "main_pc s" page "tasks s" "sem s" "spawned (trace s)"]
    by (simp add: slots_inv_def s')
next
  case (D_loop page)
  with assms show ?thesis
    by (auto simp add: slots_inv_def slots_ok_def step_disp_def split: if_splits)
next
  case (D_add page)
  with assms show ?thesis
    by (auto simp add: slots_inv_def slots_ok_def step_disp_def split: if_splits)
next
  case D_close
  with assms show ?thesis
    by (auto simp add: slots_inv_def slots_ok_def step_disp_def split: if_splits)
next
  case (D_done panicking)
  with assms show ?thesis
    by (auto simp add: slots_inv_def slots_ok_def step_disp_def split: if_splits option.splits)
next
  case (D_fatal e)
  with assms show ?thesis
    by (auto simp add: slots_inv_def slots_ok_def step_disp_def split: if_splits)
qed (insert assms, simp_all add: step_disp_def)

lemma slots_task:
  assumes "slots_inv cfg s" and "step_task cfg p s = Some s'"
  shows "slots_inv cfg s'"
proof -
  from assms(2) have p: "p < length (tasks s)"
    by (simp add: step_task_def split: if_splits)
  note ok = assms(1) [unfolded slots_inv_def]
  show ?thesis
  proof (cases "tasks s ! p")
    case T_idle
    with assms(2) p show ?thesis by (simp add: step_task_def)
  next
    case T_fetch
    show ?thesis
    proof (cases "fetchData cfg p")
      case (Inl e)
      with assms(2) p T_fetch have "s' = s\<lparr>tasks := (tasks s)[p := T_release None],
          trace := trace s @ [Fetched p, LogFetchError p e]\<rparr>"
        by (simp add: step_task_def)
      then show ?thesis
        using slots_ok_task_same [OF ok p, of "T_release None"] T_fetch
        by (simp add: slots_inv_def)
    next
      case (Inr b)
      with assms(2) p T_fetch have "s' = s\<lparr>tasks := (tasks s)[p := T_send b],
          trace := trace s @ [Fetched p, LogPage p (length b)]\<rparr>"
        by (simp add: step_task_def)
      then show ?thesis
        using slots_ok_task_same [OF ok p, of "T_send b"] T_fetch
        by (simp add: slots_inv_def)
    qed
  next
    case (T_send b)
    show ?thesis
    proof (cases "closed s")
      case True
      with assms(2) p T_send have
        "s' = s\<lparr>tasks := (tasks s)[p := T_release (Some SendOnClosedChannel)]\<rparr>"
        by (simp add: step_task_def)
      then show ?thesis
        using slots_ok_task_same [OF ok p, of "T_release (Some SendOnClosedChannel)"] T_send
        by (simp add: slots_inv_def)
    next
      case False
      with assms(2) p T_send have
        "s' = s\<lparr>chan := chan s @ [b], tasks := (tasks s)[p := T_release None],
                  trace := trace s @ [Sent p]\<rparr>"
        by (simp add: step_task_def split: if_splits)
      then show ?thesis
        using slots_ok_task_same [OF ok p, of "T_release None"] T_send
        by (simp add: slots_inv_def)
    qed
  next
    case (T_release panicking)
    with assms(2) p have s': "s' = s\<lparr>sem := sem s - 1, tasks := (tasks s)[p := T_done panicking]\<rparr>"
      by (simp add: step_task_def split: if_splits)
    show ?thesis
      using slots_ok_task_release [OF ok p, of "T_done panicking"] T_release
      by (simp add: slots_inv_def s')
  next
    case (T_done panicking)
    show ?thesis
    proof (cases "wg s - 1 < 0")
      case True
      with assms(2) p T_done have "s' = s\<lparr>wg := wg s - 1,
          trace := trace s @ [PanicMsg NegativeWaitGroupCounter], status := Exited 2\<rparr>"
        by (simp add: step_task_def)
      with ok show ?thesis by (simp add: slots_inv_def)
    next
      case False
      define t where "t = (case panicking of None \<Rightarrow> T_returned | Some e \<Rightarrow> T_fatal e)"
      have t: "t \<noteq> T_idle" "\<not> holds_slot t"
        by (simp_all add: t_def split: option.splits)
      from False assms(2) p T_done have "s' = s\<lparr>wg := wg s - 1, tasks := (tasks s)[p := t]\<rparr>"
        by (simp add: step_task_def t_def)
      then show ?thesis
        using slots_ok_task_same [OF ok p, of t] T_done t
        by (simp add: slots_inv_def)
    qed
  next
    case (T_fatal e)
    with assms(2) p have "s' = s\<lparr>trace := trace s @ [PanicMsg e], status := Exited 2\<rparr>"
      by (simp add: step_task_def)
    with ok show ?thesis by (simp add: slots_inv_def)
  next
    case T_returned
    with assms(2) p show ?thesis by (simp add: step_task_def)
  qed
qed

lemma step_Some:
  assumes "step cfg t s = Some s'"
  shows "status s = Running"
    and "t = Main \<Longrightarrow> step_main cfg s = Some s'"
    and "t = Dispatcher \<Longrightarrow> step_disp cfg s = Some s'"
    and "t = Consumer \<Longrightarrow> step_cons cfg s = Some s'"
    and "t = Task p \<Longrightarrow> step_task cfg p s = Some s'"
  using assms by (simp_all add: step_def split: if_splits)

lemma invariant_run:
  assumes "\<And>s t s'. P s \<Longrightarrow> step cfg t s = Some s' \<Longrightarrow> P s'"
    and "P s" and "run cfg sched s = Some s'"
  shows "P s'"
  using assms(2,3)
proof (induction sched arbitrary: s)
  case Nil
  then show ?case by simp
next
  case (Cons t sched)
  from Cons.prems(2) obtain s1 where
    s1: "step cfg t s = Some s1" "run cfg sched s1 = Some s'"
    by (cases "step cfg t s") simp_all
  from assms(1) [OF Cons.prems(1) s1(1)] have "P s1" .
  with s1(2) show ?case by (rule Cons.IH [rotated])
qed

lemma invariant_exec:
  assumes "P (init cfg)"
    and "\<And>s t s'. P s \<Longrightarrow> step cfg t s = Some s' \<Longrightarrow> P s'"
    and "exec cfg sched = Some s"
  shows "P s"
  using invariant_run [of P cfg "init cfg" sched s] assms by (simp add: exec_def)

lemma slots_step:
  assumes "slots_inv cfg s" and "step cfg t s = Some s'"
  shows "slots_inv cfg s'"
proof (cases t)
  case Main
  with assms show ?thesis by (blast intro: slots_main step_Some(2))
next
  case Dispatcher
  with assms show ?thesis by (blast intro: slots_disp step_Some(3))
next
  case Consumer
  with assms show ?thesis by (blast intro: slots_cons step_Some(4))
next
  case (Task p)
  with assms show ?thesis by (blast intro: slots_task step_Some(5))
qed

lemma slots_exec: "exec cfg sched = Some s \<Longrightarrow> slots_inv cfg s"
  using invariant_exec [of "slots_inv cfg" cfg sched s] slots_init slots_step by blast

section \<open>The concurrency bound\<close>

text \<open>
  Claim C3. In every state of every run, for every page count and every ceiling,
  at most \<^verbatim>\<open>maxConcurrent\<close> page goroutines are between their launch and their
  release of the slot, so at most \<^verbatim>\<open>maxConcurrent\<close> of them execute \<^verbatim>\<open>fetchData\<close>;
  the tokens in \<^verbatim>\<open>sem\<close> are exactly one per such goroutine, plus the one acquired
  for the goroutine about to be launched: a slot is taken before the launch and
  given back by every goroutine that is over, whatever its outcome.
\<close>

theorem concurrency_bound:
  assumes "exec cfg sched = Some s"
  shows "length (filter (\<lambda>t. t = T_fetch) (tasks s)) \<le> maxConcurrent cfg \<and>
         length (filter holds_slot (tasks s)) \<le> maxConcurrent cfg \<and>
         sem s = length (filter holds_slot (tasks s)) + (if launching (disp_pc s) then 1 else 0) \<and>
         (\<forall>p < pageMax cfg. tasks s ! p = T_idle \<longrightarrow> frontier cfg (disp_pc s) \<le> p)"
proof -
  from slots_exec [OF assms] have ok:
    "slots_ok cfg (main_pc s) (disp_pc s) (tasks s) (sem s) (spawned (trace s))"
    by (simp add: slots_inv_def)
  then have n: "sem s = length (filter holds_slot (tasks s)) + (if launching (disp_pc s) then 1 else 0)"
    and le: "sem s \<le> maxConcurrent cfg"
    and idle: "\<forall>q < pageMax cfg. (frontier cfg (disp_pc s) \<le> q) = (tasks s ! q = T_idle)"
    by (simp_all add: slots_ok_def)
  have "length (filter (\<lambda>t. t = T_fetch) (tasks s)) \<le> length (filter holds_slot (tasks s))"
  proof -
    have "filter (\<lambda>t. t = T_fetch) (tasks s) = filter (\<lambda>t. t = T_fetch) (filter holds_slot (tasks s))"
      by (induction "tasks s") (auto simp add: filter_id_conv intro: filter_cong)
    then show ?thesis by (metis length_filter_le)
  qed
  moreover have "length (filter holds_slot (tasks s)) \<le> maxConcurrent cfg"
    using n le by simp
  ultimately show ?thesis using n idle by auto
qed

theorem concurrency_bound_witness:
  "\<exists>s. exec example_cfg [Main, Main, Main, Main, Dispatcher, Dispatcher, Dispatcher, Task 0] = Some s \<and>
       tasks s = [T_send [example_product], T_idle] \<and> sem s = 1 \<and> maxConcurrent example_cfg = 1 \<and>
       step example_cfg Dispatcher s = None \<and>
       length (filter holds_slot (tasks s)) \<le> maxConcurrent example_cfg"
proof -
  let ?r = "exec example_cfg [Main, Main, Main, Main, Dispatcher, Dispatcher, Dispatcher, Task 0]"
  have "?r \<noteq> None" by code_simp
  then obtain s where e: "?r = Some s" by blast
  have "map_option tasks ?r = Some [T_send [example_product], T_idle]"
    and "map_option sem ?r = Some 1"
    and "map_option (step example_cfg Dispatcher) ?r = Some None"
    and "maxConcurrent example_cfg = 1"
    by code_simp+
  with e concurrency_bound [OF e] show ?thesis by simp
qed

section \<open>The close of the channel in main.go\<close>

text \<open>
  Claim C2 requires that \<^verbatim>\<open>productsChan\<close> is closed only after every dispatched
  goroutine has completed. In main.go \<^verbatim>\<open>close(productsChan)\<close> (line 58) follows the
  return of \<^verbatim>\<open>fetchProducts\<close>, which returns when its loop has launched the last
  goroutine, without waiting for any of them. With one page, whose fetch succeeds:
  after the steps of \<open>close_first\<close> the channel is closed while the goroutine of
  page 0 has not yet called \<^verbatim>\<open>fetchData\<close>; it then fetches its page and its send
  finds the channel closed and panics.
\<close>

theorem close_before_tasks_complete:
  "map_option (\<lambda>s. (closed s, tasks s, wg s, status s)) (exec one_page_cfg close_first) =
     Some (True, [T_fetch], 3, Running) \<and>
   map_option (\<lambda>s. (closed s, tasks s, chan s, status s))
     (exec one_page_cfg (close_first @ [Task 0])) =
     Some (True, [T_send [example_product]], [], Running) \<and>
   map_option (\<lambda>s. (closed s, tasks s, chan s, status s))
     (exec one_page_cfg (close_first @ [Task 0, Task 0])) =
     Some (True, [T_release (Some SendOnClosedChannel)], [], Running)"
  by code_simp

text \<open>
  Claim C1 requires that at the end of every run \<^verbatim>\<open>allProducts\<close> holds the records
  of every page whose fetch succeeded. In the run above the program then ends with
  the panic \<^verbatim>\<open>send on closed channel\<close> (exit status 2): the only page was fetched
  with one record, \<^verbatim>\<open>allProducts\<close> is empty and no file has been written. The
  deferred \<^verbatim>\<open>wg.Done()\<close> of the panicking goroutine runs before the program ends, so
  \<^verbatim>\<open>main\<close> can also return from \<^verbatim>\<open>wg.Wait()\<close> first, with the empty \<^verbatim>\<open>allProducts\<close>
  in hand for the writers.
\<close>

theorem records_lost_by_early_close:
  "fetchData one_page_cfg 0 = Inr [example_product] \<and>
   map_option (\<lambda>s. (status s, allProducts s, chan s, csv_file s, md_file s, trace s))
     (exec one_page_cfg (close_first @ [Task 0, Task 0, Task 0, Task 0, Task 0])) =
     Some (Exited 2, [], [], None, None,
           [Spawned 0, ChanClosed, Fetched 0, LogPage 0 1, PanicMsg SendOnClosedChannel]) \<and>
   map_option (\<lambda>s. (status s, main_pc s, allProducts s, chan s, tasks s))
     (exec one_page_cfg
        (close_first @ [Dispatcher, Consumer, Consumer, Task 0, Task 0, Task 0, Task 0, Main])) =
     Some (Running, M_writeCSV, [], [], [T_fatal SendOnClosedChannel])"
  by code_simp

section \<open>The counter of the WaitGroup\<close>

lemma wg_ok_task_same:
  assumes "wg_ok m d c ts w" and "p < length ts" and "pending t = pending (ts ! p)"
  shows "wg_ok m d c (ts[p := t]) w"
proof -
  have "length (filter pending (ts[p := t])) = length (filter pending ts)"
    using assms(2,3) by (simp add: filter_update_same)
  with assms(1) show ?thesis by (simp add: wg_ok_def)
qed

lemma wg_ok_task_done:
  assumes "wg_ok m d c ts w" and "p < length ts" and "pending (ts ! p)" and "\<not> pending t"
  shows "wg_ok m d c (ts[p := t]) (w - 1)" and "0 < w"
proof -
  define k where "k = length (filter pending ts)"
  define k' where "k' = length (filter pending (ts[p := t]))"
  have "Suc k' = k"
    unfolding k_def k'_def using assms(2,3,4) by (rule filter_update_lose)
  then have k: "int k = int k' + 1" by simp
  from assms(1) have c: "(c = C_idle) = before_go_drain m"
    and w: "w = int k + (if adding d then 1 else 0)
         + (if \<not> before_add_fetch m \<and> \<not> disp_done d then 1 else 0)
         + (if \<not> before_add_drain m \<and> \<not> cons_done c then 1 else 0)"
    by (simp_all add: wg_ok_def k_def)
  from w k show "0 < w" by (simp split: if_splits)
  from w k have "w - 1 = int k' + (if adding d then 1 else 0)
         + (if \<not> before_add_fetch m \<and> \<not> disp_done d then 1 else 0)
         + (if \<not> before_add_drain m \<and> \<not> cons_done c then 1 else 0)"
    by simp
  with c show "wg_ok m d c (ts[p := t]) (w - 1)" by (simp add: wg_ok_def k'_def)
qed

lemma wg_init: "wg_inv (init cfg)"
  by (simp add: wg_inv_def wg_ok_def init_def)

lemma wg_main:
  assumes "slots_inv cfg s" and "wg_inv s" and "step_main cfg s = Some s'"
  shows "wg_inv s'"
proof -
  from assms(1) have link: "(disp_pc s = D_idle) = (main_pc s = M_add_fetch \<or> main_pc s = M_go_fetch)"
    by (simp add: slots_inv_def slots_ok_def)
  note ok = assms(2) [unfolded wg_inv_def wg_ok_def]
  show ?thesis
  proof (cases "main_pc s")
    case M_add_fetch
    with assms(3) have "s' = s\<lparr>wg := wg s + 1, main_pc := M_go_fetch\<rparr>"
      by (simp add: step_main_def)
    with ok link M_add_fetch show ?thesis by (simp add: wg_inv_def wg_ok_def)
  next
    case M_go_fetch
    with assms(3) have "s' = s\<lparr>disp_pc := D_loop 0, main_pc := M_add_drain\<rparr>"
      by (simp add: step_main_def)
    with ok link M_go_fetch show ?thesis by (simp add: wg_inv_def wg_ok_def)
  next
    case M_add_drain
    with assms(3) have "s' = s\<lparr>wg := wg s + 1, main_pc := M_go_drain\<rparr>"
      by (simp add: step_main_def)
    with ok link M_add_drain show ?thesis by (simp add: wg_inv_def wg_ok_def)
  next
    case M_go_drain
    with assms(3) have "s' = s\<lparr>cons_pc := C_range, main_pc := M_wait\<rparr>"
      by (simp add: step_main_def)
    with ok link M_go_drain show ?thesis by (simp add: wg_inv_def wg_ok_def)
  next
    case M_wait
    with assms(3) have "s' = s\<lparr>main_pc := M_writeCSV\<rparr>"
      by (simp add: step_main_def split: if_splits)
    with ok M_wait show ?thesis by (simp add: wg_inv_def wg_ok_def)
  next
    case M_writeCSV
    with assms(3) have "tasks s' = tasks s \<and> wg s' = wg s \<and> disp_pc s' = disp_pc s \<and>
        cons_pc s' = cons_pc s \<and> (main_pc s' = M_writeCSV \<or> main_pc s' = M_writeMarkdown)"
      by (auto simp add: step_main_def split: prod.splits write_result.splits)
    with ok M_writeCSV show ?thesis by (auto simp add: wg_inv_def wg_ok_def)
  next
    case M_writeMarkdown
    with assms(3) have "tasks s' = tasks s \<and> wg s' = wg s \<and> disp_pc s' = disp_pc s \<and>
        cons_pc s' = cons_pc s \<and> (main_pc s' = M_writeMarkdown \<or> main_pc s' = M_println)"
      by (auto simp add: step_main_def split: prod.splits write_result.splits)
    with ok M_writeMarkdown show ?thesis by (auto simp add: wg_inv_def wg_ok_def)
  next
    case M_println
    with assms(3) have "s' = s\<lparr>trace := trace s @ [PrintDone], main_pc := M_returned,
        status := Exited 0\<rparr>"
      by (simp add: step_main_def)
    with ok M_println show ?thesis by (simp add: wg_inv_def wg_ok_def)
  next
    case M_returned
    with assms(3) show ?thesis by (simp add: step_main_def)
  qed
qed

lemma wg_cons:
  assumes "wg_inv s" and "step_cons cfg s = Some s'"
  shows "wg_inv s'"
proof -
  note ok = assms(1) [unfolded wg_inv_def wg_ok_def]
  show ?thesis
  proof (cases "cons_pc s")
    case C_idle
    with assms(2) show ?thesis by (simp add: step_cons_def)
  next
    case C_range
    with assms(2) have "tasks s' = tasks s \<and> wg s' = wg s \<and> disp_pc s' = disp_pc s \<and>
        main_pc s' = main_pc s \<and> (cons_pc s' = C_range \<or> cons_pc s' = C_done)"
      by (auto simp add: step_cons_def split: list.splits if_splits)
    with ok C_range show ?thesis by (auto simp add: wg_inv_def wg_ok_def)
  next
    case C_done
    from ok C_done have m: "\<not> before_go_drain (main_pc s)" by simp
    then have m': "\<not> before_add_drain (main_pc s)" by (cases "main_pc s") simp_all
    with ok C_done have pos: "0 < wg s" by (simp split: if_splits)
    with assms(2) C_done have "s' = s\<lparr>wg := wg s - 1, cons_pc := C_returned\<rparr>"
      by (simp add: step_cons_def)
    with ok C_done m m' show ?thesis by (simp add: wg_inv_def wg_ok_def)
  next
    case C_returned
    with assms(2) show ?thesis by (simp add: step_cons_def)
  qed
qed

lemma wg_disp:
  assumes "slots_inv cfg s" and "wg_inv s" and "step_disp cfg s = Some s'"
  shows "wg_inv s'"
proof -
  from assms(1) have sl: "slots_ok cfg (main_pc s) (disp_pc s) (tasks s) (sem s) (spawned (trace s))"
    by (simp add: slots_inv_def)
  then have link: "(disp_pc s = D_idle) = (main_pc s = M_add_fetch \<or> main_pc s = M_go_fetch)"
    by (simp add: slots_ok_def)
  note ok = assms(2) [unfolded wg_inv_def wg_ok_def]
  show ?thesis
  proof (cases "disp_pc s")
    case D_idle
    with assms(3) show ?thesis by (simp add: step_disp_def)
  next
    case (D_loop page)
    with assms(3) have "tasks s' = tasks s \<and> wg s' = wg s \<and> cons_pc s' = cons_pc s \<and>
        main_pc s' = main_pc s \<and> (disp_pc s' = D_add page \<or> disp_pc s' = D_close)"
      by (auto simp add: step_disp_def split: if_splits)
    with ok D_loop show ?thesis by (auto simp add: wg_inv_def wg_ok_def)
  next
    case (D_add page)
    with assms(3) have "s' = s\<lparr>wg := wg s + 1, disp_pc := D_go page\<rparr>"
      by (simp add: step_disp_def)
    with ok D_add show ?thesis by (simp add: wg_inv_def wg_ok_def)
  next
    case (D_go page)
    with assms(3) have s': "s' = s\<lparr>tasks := (tasks s)[page := T_fetch],
        trace := trace s @ [Spawned page], disp_pc := D_loop (page + 1)\<rparr>"
      by (simp add: step_disp_def)
    from sl D_go have "page < length (tasks s)" and "tasks s ! page = T_idle"
      using slots_ok_go [of cfg "main_pc s" page "tasks s" "sem s" "spawned (trace s)"] by simp_all
    then have "length (filter pending ((tasks s)[page := T_fetch])) =
        Suc (length (filter pending (tasks s)))"
      by (simp add: filter_update_gain)
    with ok D_go show ?thesis by (simp add: wg_inv_def wg_ok_def s')
  next
    case D_close
    with assms(3) have "tasks s' = tasks s \<and> wg s' = wg s \<and> cons_pc s' = cons_pc s \<and>
        main_pc s' = main_pc s \<and> (\<exists>e. disp_pc s' = D_done e)"
      by (auto simp add: step_disp_def split: if_splits)
    with ok D_close show ?thesis by (auto simp add: wg_inv_def wg_ok_def)
  next
    case (D_done panicking)
    from link D_done have m: "\<not> before_add_fetch (main_pc s)"
      by (cases "main_pc s") simp_all
    with ok D_done have pos: "0 < wg s" by (simp split: if_splits)
    define d where "d = (case panicking of None \<Rightarrow> D_returned | Some e \<Rightarrow> D_fatal e)"
    have d: "disp_done d" "\<not> adding d" by (simp_all add: d_def split: option.splits)
    from pos assms(3) D_done have "s' = s\<lparr>wg := wg s - 1, disp_pc := d\<rparr>"
      by (simp add: step_disp_def d_def)
    with ok D_done m d show ?thesis by (simp add: wg_inv_def wg_ok_def)
  next
    case (D_fatal e)
    with assms(3) have "s' = s\<lparr>trace := trace s @ [PanicMsg e], status := Exited 2\<rparr>"
      by (simp add: step_disp_def)
    with ok show ?thesis by (simp add: wg_inv_def wg_ok_def)
  next
    case D_returned
    with assms(3) show ?thesis by (simp add: step_disp_def)
  qed
qed

lemma wg_task:
  assumes "wg_inv s" and "step_task cfg p s = Some s'"
  shows "wg_inv s'"
proof -
  from assms(2) have p: "p < length (tasks s)"
    by (simp add: step_task_def split: if_splits)
  note ok = assms(1) [unfolded wg_inv_def]
  show ?thesis
  proof (cases "tasks s ! p")
    case T_idle
    with assms(2) p show ?thesis by (simp add: step_task_def)
  next
    case T_fetch
    show ?thesis
    proof (cases "fetchData cfg p")
      case (Inl e)
      with assms(2) p T_fetch have "s' = s\<lparr>tasks := (tasks s)[p := T_release None],
          trace := trace s @ [Fetched p, LogFetchError p e]\<rparr>"
        by (simp add: step_task_def)
      then show ?thesis
        using wg_ok_task_same [OF ok p, of "T_release None"] T_fetch by (simp add: wg_inv_def)
    next
      case (Inr b)
      with assms(2) p T_fetch have "s' = s\<lparr>tasks := (tasks s)[p := T_send b],
          trace := trace s @ [Fetched p, LogPage p (length b)]\<rparr>"
        by (simp add: step_task_def)
      then show ?thesis
        using wg_ok_task_same [OF ok p, of "T_send b"] T_fetch by (simp add: wg_inv_def)
    qed
  next
    case (T_send b)
    show ?thesis
    proof (cases "closed s")
      case True
      with assms(2) p T_send have
        "s' = s\<lparr>tasks := (tasks s)[p := T_release (Some SendOnClosedChannel)]\<rparr>"
        by (simp add: step_task_def)
      then show ?thesis
        using wg_ok_task_same [OF ok p, of "T_release (Some SendOnClosedChannel)"] T_send
        by (simp add: wg_inv_def)
    next
      case False
      with assms(2) p T_send have
        "s' = s\<lparr>chan := chan s @ [b], tasks := (tasks s)[p := T_release None],
                  trace := trace s @ [Sent p]\<rparr>"
        by (simp add: step_task_def split: if_splits)
      then show ?thesis
        using wg_ok_task_same [OF ok p, of "T_release None"] T_send
        by (simp add: wg_inv_def)
    qed
  next
    case (T_release panicking)
    with assms(2) p have s': "s' = s\<lparr>sem := sem s - 1, tasks := (tasks s)[p := T_done panicking]\<rparr>"
      by (simp add: step_task_def split: if_splits)
    show ?thesis
      using wg_ok_task_same [OF ok p, of "T_done panicking"] T_release
      by (simp add: wg_inv_def s')
  next
    case (T_done panicking)
    define t where "t = (case panicking of None \<Rightarrow> T_returned | Some e \<Rightarrow> T_fatal e)"
    have t: "\<not> pending t" by (simp add: t_def split: option.splits)
    from T_done have pend: "pending (tasks s ! p)" by simp
    note fin = wg_ok_task_done [OF ok p pend t]
    from fin(2) assms(2) p T_done have "s' = s\<lparr>wg := wg s - 1, tasks := (tasks s)[p := t]\<rparr>"
      by (simp add: step_task_def t_def)
    with fin(1) show ?thesis by (simp add: wg_inv_def)
  next
    case (T_fatal e)
    with assms(2) p have "s' = s\<lparr>trace := trace s @ [PanicMsg e], status := Exited 2\<rparr>"
      by (simp add: step_task_def)
    with ok show ?thesis by (simp add: wg_inv_def)
  next
    case T_returned
    with assms(2) p show ?thesis by (simp add: step_task_def)
  qed
qed

lemma slots_wg_step:
  assumes "slots_inv cfg s \<and> wg_inv s" and "step cfg t s = Some s'"
  shows "slots_inv cfg s' \<and> wg_inv s'"
proof -
  from assms have sl: "slots_inv cfg s'" by (blast intro: slots_step)
  have "wg_inv s'"
  proof (cases t)
    case Main
    with assms show ?thesis by (blast intro: wg_main step_Some(2))
  next
    case Dispatcher
    with assms show ?thesis by (blast intro: wg_disp step_Some(3))
  next
    case Consumer
    with assms show ?thesis by (blast intro: wg_cons step_Some(4))
  next
    case (Task p)
    with assms show ?thesis by (blast intro: wg_task step_Some(5))
  qed
  with sl show ?thesis by simp
qed

lemma wg_exec: "exec cfg sched = Some s \<Longrightarrow> wg_inv s"
  using invariant_exec [of "\<lambda>s. slots_inv cfg s \<and> wg_inv s" cfg sched s]
    slots_init wg_init slots_wg_step by blast

section \<open>The page goroutines\<close>

lemma quiet_count:
  "quiet evs \<Longrightarrow> count_list evs (Fetched p) = 0 \<and> count_list evs (Sent p) = 0"
  by (induction evs rule: quiet.induct) simp_all

lemma task_ok_mono:
  assumes "task_ok cfg p t tr cl"
    and "count_list evs (Fetched p) = 0" and "count_list evs (Sent p) = 0" and "cl \<longrightarrow> cl'"
  shows "task_ok cfg p t (tr @ evs) cl'"
  using assms by (cases "fetchData cfg p") (auto simp add: task_ok_def)

lemma task_ok_same:
  assumes "task_ok cfg p t tr cl"
    and "fetched t' = fetched t" and "after_normal t' = after_normal t"
    and "panic_of t' = panic_of t" and "sending t' = None"
  shows "task_ok cfg p t' tr cl"
  using assms by (cases "fetchData cfg p") (simp_all add: task_ok_def)

lemma task_at_update:
  "p0 < length ts \<Longrightarrow> task_at (ts[p0 := t]) p = (if p = p0 then t else task_at ts p)"
  by (simp add: task_at_def)

lemma tasks_inv_update:
  assumes "tasks_inv cfg s" and "p0 < length (tasks s)"
    and "tasks s' = (tasks s)[p0 := t']" and "trace s' = trace s @ evs"
    and "closed s \<longrightarrow> closed s'"
    and "\<And>p. p \<noteq> p0 \<Longrightarrow> count_list evs (Fetched p) = 0 \<and> count_list evs (Sent p) = 0"
    and "task_ok cfg p0 t' (trace s @ evs) (closed s')"
  shows "tasks_inv cfg s'"
  unfolding tasks_inv_def
proof
  fix p
  show "task_ok cfg p (task_at (tasks s') p) (trace s') (closed s')"
  proof (cases "p = p0")
    case True
    with assms(2,3,4,7) show ?thesis by (simp add: task_at_update)
  next
    case False
    from assms(1) have "task_ok cfg p (task_at (tasks s) p) (trace s) (closed s)"
      by (simp add: tasks_inv_def)
    then have "task_ok cfg p (task_at (tasks s) p) (trace s @ evs) (closed s')"
      using assms(6) [OF False] assms(5) by (intro task_ok_mono) simp_all
    with False assms(2,3,4) show ?thesis by (simp add: task_at_update)
  qed
qed

lemma tasks_inv_quiet:
  assumes "tasks_inv cfg s" and "tasks s' = tasks s" and "trace s' = trace s @ evs"
    and "quiet evs" and "closed s \<longrightarrow> closed s'"
  shows "tasks_inv cfg s'"
  unfolding tasks_inv_def
proof
  fix p
  from assms(1) have "task_ok cfg p (task_at (tasks s) p) (trace s) (closed s)"
    by (simp add: tasks_inv_def)
  then have "task_ok cfg p (task_at (tasks s) p) (trace s @ evs) (closed s')"
    using quiet_count [OF assms(4), of p] assms(5) by (intro task_ok_mono) simp_all
  with assms(2,3) show "task_ok cfg p (task_at (tasks s') p) (trace s') (closed s')"
    by simp
qed

lemma tasks_init: "tasks_inv cfg (init cfg)"
  by (auto simp add: tasks_inv_def task_ok_def task_at_def init_def split: sum.splits)

lemma tasks_main:
  assumes "tasks_inv cfg s" and "step_main cfg s = Some s'"
  shows "tasks_inv cfg s'"
proof -
  have "tasks s' = tasks s \<and> closed s' = closed s \<and> (\<exists>evs. trace s' = trace s @ evs \<and> quiet evs)"
    using assms(2)
    by (cases "main_pc s")
       (auto simp add: step_main_def split: prod.splits write_result.splits if_splits)
  then obtain evs where "tasks s' = tasks s" "closed s \<longrightarrow> closed s'"
    "trace s' = trace s @ evs" "quiet evs" by auto
  with assms(1) show ?thesis by (blast intro: tasks_inv_quiet)
qed

lemma tasks_cons:
  assumes "tasks_inv cfg s" and "step_cons cfg s = Some s'"
  shows "tasks_inv cfg s'"
proof -
  have "tasks s' = tasks s \<and> closed s' = closed s \<and> (\<exists>evs. trace s' = trace s @ evs \<and> quiet evs)"
    using assms(2)
    by (cases "cons_pc s") (auto simp add: step_cons_def split: list.splits if_splits)
  then obtain evs where "tasks s' = tasks s" "closed s \<longrightarrow> closed s'"
    "trace s' = trace s @ evs" "quiet evs" by auto
  with assms(1) show ?thesis by (blast intro: tasks_inv_quiet)
qed

lemma tasks_disp:
  assumes "slots_inv cfg s" and "tasks_inv cfg s" and "step_disp cfg s = Some s'"
  shows "tasks_inv cfg s'"
proof (cases "disp_pc s")
  case (D_go page)
  with assms(3) have s': "s' = s\<lparr>tasks := (tasks s)[page := T_fetch],
      trace := trace s @ [Spawned page], disp_pc := D_loop (page + 1)\<rparr>"
    by (simp add: step_disp_def)
  from assms(1) D_go have page: "page < length (tasks s)" and idle: "tasks s ! page = T_idle"
    using slots_ok_go [of cfg "main_pc s" page "tasks s" "sem s" "spawned (trace s)"]
    by (simp_all add: slots_inv_def)
  from assms(2) have "task_ok cfg page (task_at (tasks s) page) (trace s) (closed s)"
    by (simp add: tasks_inv_def)
  with page idle have "task_ok cfg page T_idle (trace s) (closed s)"
    by (simp add: task_at_def)
  then have "task_ok cfg page T_fetch (trace s) (closed s)"
    by (rule task_ok_same) simp_all
  then have "task_ok cfg page T_fetch (trace s @ [Spawned page]) (closed s)"
    by (rule task_ok_mono) simp_all
  then show ?thesis
    using tasks_inv_update [OF assms(2) page, of s' T_fetch "[Spawned page]"]
    by (simp add: s')
next
  case D_idle
  with assms(3) show ?thesis by (simp add: step_disp_def)
next
  case D_returned
  with assms(3) show ?thesis by (simp add: step_disp_def)
next
  case (D_loop page)
  with assms(3) have "tasks s' = tasks s \<and> closed s' = closed s \<and> trace s' = trace s @ []"
    by (auto simp add: step_disp_def split: if_splits)
  with assms(2) show ?thesis using tasks_inv_quiet [of cfg s s' "[]"] by simp
next
  case (D_add page)
  with assms(3) have "tasks s' = tasks s \<and> closed s' = closed s \<and> trace s' = trace s @ []"
    by (auto simp add: step_disp_def split: if_splits)
  with assms(2) show ?thesis using tasks_inv_quiet [of cfg s s' "[]"] by simp
next
  case D_close
  with assms(3) have "tasks s' = tasks s \<and> (closed s \<longrightarrow> closed s') \<and>
      (\<exists>evs. trace s' = trace s @ evs \<and> quiet evs)"
    by (auto simp add: step_disp_def split: if_splits)
  then obtain evs where "tasks s' = tasks s" "closed s \<longrightarrow> closed s'"
    "trace s' = trace s @ evs" "quiet evs" by auto
  with assms(2) show ?thesis by (blast intro: tasks_inv_quiet)
next
  case (D_done panicking)
  with assms(3) have "tasks s' = tasks s \<and> closed s' = closed s \<and>
      (\<exists>evs. trace s' = trace s @ evs \<and> quiet evs)"
    by (auto simp add: step_disp_def split: if_splits)
  then obtain evs where "tasks s' = tasks s" "closed s \<longrightarrow> closed s'"
    "trace s' = trace s @ evs" "quiet evs" by auto
  with assms(2) show ?thesis by (blast intro: tasks_inv_quiet)
next
  case (D_fatal e)
  with assms(3) have "tasks s' = tasks s \<and> closed s' = closed s \<and>
      trace s' = trace s @ [PanicMsg e]"
    by (auto simp add: step_disp_def split: if_splits)
  with assms(2) show ?thesis using tasks_inv_quiet [of cfg s s' "[PanicMsg e]"] by simp
qed

lemma tasks_task:
  assumes "tasks_inv cfg s" and "step_task cfg p0 s = Some s'"
  shows "tasks_inv cfg s'"
proof -
  from assms(2) have p0: "p0 < length (tasks s)"
    by (simp add: step_task_def split: if_splits)
  from assms(1) have "task_ok cfg p0 (task_at (tasks s) p0) (trace s) (closed s)"
    by (simp add: tasks_inv_def)
  with p0 have ok: "task_ok cfg p0 (tasks s ! p0) (trace s) (closed s)"
    by (simp add: task_at_def)
  note upd = tasks_inv_update [OF assms(1) p0, of s']
  show ?thesis
  proof (cases "tasks s ! p0")
    case T_idle
    with assms(2) p0 show ?thesis by (simp add: step_task_def)
  next
    case T_returned
    with assms(2) p0 show ?thesis by (simp add: step_task_def)
  next
    case T_fetch
    show ?thesis
    proof (cases "fetchData cfg p0")
      case (Inl e)
      with assms(2) p0 T_fetch have s': "s' = s\<lparr>tasks := (tasks s)[p0 := T_release None],
          trace := trace s @ [Fetched p0, LogFetchError p0 e]\<rparr>"
        by (simp add: step_task_def)
      from ok T_fetch Inl have
        "task_ok cfg p0 (T_release None) (trace s @ [Fetched p0, LogFetchError p0 e]) (closed s)"
        by (simp add: task_ok_def)
      then show ?thesis
        using upd [of "T_release None" "[Fetched p0, LogFetchError p0 e]"] by (simp add: s')
    next
      case (Inr b)
      with assms(2) p0 T_fetch have s': "s' = s\<lparr>tasks := (tasks s)[p0 := T_send b],
          trace := trace s @ [Fetched p0, LogPage p0 (length b)]\<rparr>"
        by (simp add: step_task_def)
      from ok T_fetch Inr have
        "task_ok cfg p0 (T_send b) (trace s @ [Fetched p0, LogPage p0 (length b)]) (closed s)"
        by (simp add: task_ok_def)
      then show ?thesis
        using upd [of "T_send b" "[Fetched p0, LogPage p0 (length b)]"] by (simp add: s')
    qed
  next
    case (T_send b')
    with ok obtain b where b: "fetchData cfg p0 = Inr b"
      by (cases "fetchData cfg p0") (simp_all add: task_ok_def)
    show ?thesis
    proof (cases "closed s")
      case True
      with assms(2) p0 T_send have
        s': "s' = s\<lparr>tasks := (tasks s)[p0 := T_release (Some SendOnClosedChannel)]\<rparr>"
        by (simp add: step_task_def)
      from ok T_send b True have
        "task_ok cfg p0 (T_release (Some SendOnClosedChannel)) (trace s @ []) (closed s)"
        by (simp add: task_ok_def)
      then show ?thesis
        using upd [of "T_release (Some SendOnClosedChannel)" "[]"] by (simp add: s')
    next
      case False
      with assms(2) p0 T_send have
        s': "s' = s\<lparr>chan := chan s @ [b'], tasks := (tasks s)[p0 := T_release None],
                  trace := trace s @ [Sent p0]\<rparr>"
        by (simp add: step_task_def split: if_splits)
      from ok T_send b have
        "task_ok cfg p0 (T_release None) (trace s @ [Sent p0]) (closed s)"
        by (simp add: task_ok_def)
      then show ?thesis
        using upd [of "T_release None" "[Sent p0]"] by (simp add: s')
    qed
  next
    case (T_release panicking)
    with assms(2) p0 have
      s': "s' = s\<lparr>sem := sem s - 1, tasks := (tasks s)[p0 := T_done panicking]\<rparr>"
      by (simp add: step_task_def split: if_splits)
    from ok T_release have "task_ok cfg p0 (T_done panicking) (trace s) (closed s)"
      by (intro task_ok_same [OF ok]) (cases panicking; simp)+
    then show ?thesis
      using upd [of "T_done panicking" "[]"] by (simp add: s')
  next
    case (T_done panicking)
    show ?thesis
    proof (cases "wg s - 1 < 0")
      case True
      with assms(2) p0 T_done have "s' = s\<lparr>wg := wg s - 1,
          trace := trace s @ [PanicMsg NegativeWaitGroupCounter], status := Exited 2\<rparr>"
        by (simp add: step_task_def)
      then show ?thesis
        using tasks_inv_quiet [OF assms(1), of s' "[PanicMsg NegativeWaitGroupCounter]"]
        by simp
    next
      case False
      define t where "t = (case panicking of None \<Rightarrow> T_returned | Some e \<Rightarrow> T_fatal e)"
      from False assms(2) p0 T_done have
        s': "s' = s\<lparr>wg := wg s - 1, tasks := (tasks s)[p0 := t]\<rparr>"
        by (simp add: step_task_def t_def)
      from T_done have "task_ok cfg p0 t (trace s) (closed s)"
        by (intro task_ok_same [OF ok]) (cases panicking; simp add: t_def)+
      then show ?thesis
        using upd [of t "[]"] by (simp add: s')
    qed
  next
    case (T_fatal e)
    with assms(2) p0 have "s' = s\<lparr>trace := trace s @ [PanicMsg e], status := Exited 2\<rparr>"
      by (simp add: step_task_def)
    then show ?thesis
      using tasks_inv_quiet [OF assms(1), of s' "[PanicMsg e]"] by simp
  qed
qed

lemma all_inv_step:
  assumes "slots_inv cfg s \<and> wg_inv s \<and> tasks_inv cfg s" and "step cfg t s = Some s'"
  shows "slots_inv cfg s' \<and> wg_inv s' \<and> tasks_inv cfg s'"
proof -
  from assms have sw: "slots_inv cfg s' \<and> wg_inv s'"
    using slots_wg_step [of cfg s t s'] by simp
  have "tasks_inv cfg s'"
  proof (cases t)
    case Main
    with assms show ?thesis by (blast intro: tasks_main step_Some(2))
  next
    case Dispatcher
    with assms show ?thesis by (blast intro: tasks_disp step_Some(3))
  next
    case Consumer
    with assms show ?thesis by (blast intro: tasks_cons step_Some(4))
  next
    case (Task p)
    with assms show ?thesis by (blast intro: tasks_task step_Some(5))
  qed
  with sw show ?thesis by simp
qed

lemma tasks_exec: "exec cfg sched = Some s \<Longrightarrow> tasks_inv cfg s"
  using invariant_exec [of "\<lambda>s. slots_inv cfg s \<and> wg_inv s \<and> tasks_inv cfg s" cfg sched s]
    slots_init wg_init tasks_init all_inv_step by blast

section \<open>A failed fetch\<close>

text \<open>
  Claim C7. Let the fetch of page \<open>p\<close> fail. Then in every state of every run no
  batch has been sent for \<open>p\<close> and the goroutine of \<open>p\<close> is neither at the send nor
  unwinding a panic; once it has called \<^verbatim>\<open>fetchData\<close> the log holds the error with
  the page index; and while the program runs, each of its remaining steps is enabled
  and does nothing but what is written: the failed fetch appends to the log only,
  the deferred \<^verbatim>\<open><-sem\<close> finds a token and takes one, the deferred
  \<^verbatim>\<open>wg.Done()\<close> finds a positive counter and decrements it. The exit status, the
  channel, \<^verbatim>\<open>allProducts\<close> and all other goroutines are left as they are.
\<close>

theorem fetch_error_isolated:
  assumes "exec cfg sched = Some s" and "p < pageMax cfg" and "fetchData cfg p = Inl e"
  shows "Sent p \<notin> set (trace s) \<and>
         tasks s ! p \<in> {T_idle, T_fetch, T_release None, T_done None, T_returned} \<and>
         (fetched (tasks s ! p) \<longrightarrow> LogFetchError p e \<in> set (trace s)) \<and>
         (status s = Running \<and> tasks s ! p = T_fetch \<longrightarrow>
            step cfg (Task p) s =
              Some (s\<lparr>tasks := (tasks s)[p := T_release None],
                      trace := trace s @ [Fetched p, LogFetchError p e]\<rparr>)) \<and>
         (status s = Running \<and> tasks s ! p = T_release None \<longrightarrow>
            0 < sem s \<and>
            step cfg (Task p) s =
              Some (s\<lparr>sem := sem s - 1, tasks := (tasks s)[p := T_done None]\<rparr>)) \<and>
         (status s = Running \<and> tasks s ! p = T_done None \<longrightarrow>
            0 < wg s \<and>
            step cfg (Task p) s =
              Some (s\<lparr>wg := wg s - 1, tasks := (tasks s)[p := T_returned]\<rparr>))"
proof -
  from slots_exec [OF assms(1)] have
    sl: "slots_ok cfg (main_pc s) (disp_pc s) (tasks s) (sem s) (spawned (trace s))"
    by (simp add: slots_inv_def)
  then have len: "p < length (tasks s)" using assms(2) by (simp add: slots_ok_def)
  from tasks_exec [OF assms(1)] len have "task_ok cfg p (tasks s ! p) (trace s) (closed s)"
    by (simp add: tasks_inv_def task_at_def) (metis len)
  with assms(3) have t: "count_list (trace s) (Sent p) = 0"
    "fetched (tasks s ! p) \<longrightarrow> LogFetchError p e \<in> set (trace s)"
    "sending (tasks s ! p) = None" "panic_of (tasks s ! p) = None"
    by (simp_all add: task_ok_def)
  from t(1) have a: "Sent p \<notin> set (trace s)" by (simp add: count_list_0_iff)
  from t(3,4) have b: "tasks s ! p \<in> {T_idle, T_fetch, T_release None, T_done None, T_returned}"
    by (cases "tasks s ! p") simp_all
  have c: "step cfg (Task p) s =
      Some (s\<lparr>tasks := (tasks s)[p := T_release None],
              trace := trace s @ [Fetched p, LogFetchError p e]\<rparr>)"
    if "status s = Running" "tasks s ! p = T_fetch"
    using that len assms(3) by (simp add: step_def step_task_def)
  have d: "0 < sem s \<and> step cfg (Task p) s =
      Some (s\<lparr>sem := sem s - 1, tasks := (tasks s)[p := T_done None]\<rparr>)"
    if "status s = Running" "tasks s ! p = T_release None"
  proof -
    from that(2) have "holds_slot (tasks s ! p)" by simp
    with len have "0 < length (filter holds_slot (tasks s))" by (rule filter_pos)
    with sl have "0 < sem s" by (simp add: slots_ok_def)
    with that len show ?thesis by (simp add: step_def step_task_def)
  qed
  have f: "0 < wg s \<and> step cfg (Task p) s =
      Some (s\<lparr>wg := wg s - 1, tasks := (tasks s)[p := T_returned]\<rparr>)"
    if "status s = Running" "tasks s ! p = T_done None"
  proof -
    from that(2) have "pending (tasks s ! p)" by simp
    with len have "0 < length (filter pending (tasks s))" by (rule filter_pos)
    with wg_exec [OF assms(1)] have "0 < wg s"
      by (simp add: wg_inv_def wg_ok_def split: if_splits)
    with that len show ?thesis by (simp add: step_def step_task_def)
  qed
  from a b t(2) c d f show ?thesis by blast
qed

theorem fetch_error_isolated_witness:
  "1 < pageMax example_cfg \<and> fetchData example_cfg 1 = Inl TransportError \<and>
   (\<exists>s. exec example_cfg page1_launched = Some s \<and>
        status s = Running \<and> tasks s ! 1 = T_fetch \<and> Sent 1 \<notin> set (trace s) \<and>
        step example_cfg (Task 1) s =
          Some (s\<lparr>tasks := (tasks s)[1 := T_release None],
                  trace := trace s @ [Fetched 1, LogFetchError 1 TransportError]\<rparr>)) \<and>
   (\<exists>s. exec example_cfg (page1_launched @ [Task 1]) = Some s \<and>
        status s = Running \<and> tasks s ! 1 = T_release None \<and>
        LogFetchError 1 TransportError \<in> set (trace s) \<and> 0 < sem s \<and>
        step example_cfg (Task 1) s =
          Some (s\<lparr>sem := sem s - 1, tasks := (tasks s)[1 := T_done None]\<rparr>)) \<and>
   (\<exists>s. exec example_cfg (page1_launched @ [Task 1, Task 1]) = Some s \<and>
        status s = Running \<and> tasks s ! 1 = T_done None \<and> 0 < wg s \<and>
        step example_cfg (Task 1) s =
          Some (s\<lparr>wg := wg s - 1, tasks := (tasks s)[1 := T_returned]\<rparr>))"
proof -
  have p: "1 < pageMax example_cfg" and e: "fetchData example_cfg 1 = Inl TransportError"
    by (simp_all add: example_cfg_def)
  let ?r1 = "exec example_cfg page1_launched"
  let ?r2 = "exec example_cfg (page1_launched @ [Task 1])"
  let ?r3 = "exec example_cfg (page1_launched @ [Task 1, Task 1])"
  have "?r1 \<noteq> None" and "?r2 \<noteq> None" and "?r3 \<noteq> None" by code_simp+
  then obtain s1 s2 s3 where r: "?r1 = Some s1" "?r2 = Some s2" "?r3 = Some s3" by blast
  have "map_option (\<lambda>s. (status s, tasks s ! 1)) ?r1 = Some (Running, T_fetch)"
    and "map_option (\<lambda>s. (status s, tasks s ! 1)) ?r2 = Some (Running, T_release None)"
    and "map_option (\<lambda>s. (status s, tasks s ! 1)) ?r3 = Some (Running, T_done None)"
    by code_simp+
  with r have v: "status s1 = Running" "tasks s1 ! 1 = T_fetch"
    "status s2 = Running" "tasks s2 ! 1 = T_release None"
    "status s3 = Running" "tasks s3 ! 1 = T_done None" by simp_all
  from fetch_error_isolated [OF r(1) p e] v(1,2) have "\<exists>s. ?r1 = Some s \<and>
        status s = Running \<and> tasks s ! 1 = T_fetch \<and> Sent 1 \<notin> set (trace s) \<and>
        step example_cfg (Task 1) s =
          Some (s\<lparr>tasks := (tasks s)[1 := T_release None],
                  trace := trace s @ [Fetched 1, LogFetchError 1 TransportError]\<rparr>)"
    using r(1) by simp
  moreover from fetch_error_isolated [OF r(2) p e] v(3,4) have "\<exists>s. ?r2 = Some s \<and>
        status s = Running \<and> tasks s ! 1 = T_release None \<and>
        LogFetchError 1 TransportError \<in> set (trace s) \<and> 0 < sem s \<and>
        step example_cfg (Task 1) s =
          Some (s\<lparr>sem := sem s - 1, tasks := (tasks s)[1 := T_done None]\<rparr>)"
    using r(2) by simp
  moreover from fetch_error_isolated [OF r(3) p e] v(5,6) have "\<exists>s. ?r3 = Some s \<and>
        status s = Running \<and> tasks s ! 1 = T_done None \<and> 0 < wg s \<and>
        step example_cfg (Task 1) s =
          Some (s\<lparr>wg := wg s - 1, tasks := (tasks s)[1 := T_returned]\<rparr>)"
    using r(3) by simp
  ultimately show ?thesis using p e by blast
qed

section \<open>Failures of the writers\<close>

lemma csv_failed_append [simp]: "csv_failed (es @ es') = (csv_failed es \<or> csv_failed es')"
  by (induction es rule: csv_failed.induct) simp_all

lemma md_failed_append [simp]: "md_failed (es @ es') = (md_failed es \<or> md_failed es')"
  by (induction es rule: md_failed.induct) simp_all










section \<open>A run without pages\<close>

lemma zero_init: "pageMax cfg = 0 \<Longrightarrow> zero_ok cfg (init cfg)"
  by (simp add: zero_ok_def init_def)

lemma zero_main:
  assumes "zero_ok cfg s" and "step_main cfg s = Some s'"
  shows "zero_ok cfg s'"
proof (cases "main_pc s")
  case M_writeCSV
  show ?thesis
  proof (cases "writeCSV (csv_env cfg) (allProducts s)")
    case (Pair r f)
    with assms M_writeCSV show ?thesis
      by (cases r) (auto simp add: step_main_def zero_ok_def)
  qed
next
  case M_writeMarkdown
  show ?thesis
  proof (cases "writeMarkdown (md_env cfg) (allProducts s)")
    case (Pair r f)
    with assms M_writeMarkdown show ?thesis
      by (cases r) (auto simp add: step_main_def zero_ok_def)
  qed
next
  case M_wait
  with assms show ?thesis by (auto simp add: step_main_def zero_ok_def split: if_splits)
qed (insert assms, auto simp add: step_main_def zero_ok_def)

lemma zero_disp:
  assumes "zero_ok cfg s" and "step_disp cfg s = Some s'"
  shows "zero_ok cfg s'"
  using assms by (cases "disp_pc s") (auto simp add: step_disp_def zero_ok_def split: if_splits)

lemma zero_cons:
  assumes "zero_ok cfg s" and "step_cons cfg s = Some s'"
  shows "zero_ok cfg s'"
  using assms by (cases "cons_pc s") (auto simp add: step_cons_def zero_ok_def split: if_splits)

lemma zero_task:
  assumes "zero_ok cfg s" and "step_task cfg p s = Some s'"
  shows "zero_ok cfg s'"
  using assms by (simp add: step_task_def zero_ok_def)

lemma zero_step:
  assumes "zero_ok cfg s" and "step cfg t s = Some s'"
  shows "zero_ok cfg s'"
proof (cases t)
  case Main
  with assms show ?thesis by (blast intro: zero_main step_Some(2))
next
  case Dispatcher
  with assms show ?thesis by (blast intro: zero_disp step_Some(3))
next
  case Consumer
  with assms show ?thesis by (blast intro: zero_cons step_Some(4))
next
  case (Task p)
  with assms show ?thesis by (blast intro: zero_task step_Some(5))
qed

lemma zero_exec: "pageMax cfg = 0 \<Longrightarrow> exec cfg sched = Some s \<Longrightarrow> zero_ok cfg s"
  using invariant_exec [of "zero_ok cfg" cfg sched s] zero_init zero_step by blast

lemma writers_empty:
  assumes "create_ok env" and "\<forall>i. write_ok env i"
  shows "writeCSV env [] = (Returned_nil, Some [csv_header])"
    and "writeMarkdown env [] =
           (Returned_nil, Some (''| Title | Publication Date | Categories |'' @ [CHR 0x0A] @
                                ''| --- | --- | --- |'' @ [CHR 0x0A]))"
  using assms
  by (simp_all add: writeCSV_def writeMarkdown_def md_line_def md_header_def md_separator_def)

text \<open>
  Claim C5. Let \<^verbatim>\<open>pageMax\<close> be 0 and let the files be writable. In every state of
  every run no page goroutine has been launched or exists, the channel and
  \<^verbatim>\<open>allProducts\<close> are empty, a CSV file that exists holds the header row only and a
  Markdown file that exists holds the header row and the separator row only; and
  the schedule \<open>no_pages_run\<close> is a complete run, which exits with status 0 and both
  files written.
\<close>

theorem zero_pages:
  assumes "pageMax cfg = 0"
    and "create_ok (csv_env cfg)" and "\<forall>i. write_ok (csv_env cfg) i"
    and "create_ok (md_env cfg)" and "\<forall>i. write_ok (md_env cfg) i"
  shows "(\<forall>sched s. exec cfg sched = Some s \<longrightarrow>
            spawned (trace s) = [] \<and> tasks s = [] \<and> chan s = [] \<and> allProducts s = [] \<and>
            (csv_file s = None \<or> csv_file s = Some [csv_header]) \<and>
            (md_file s = None \<or>
             md_file s = Some (''| Title | Publication Date | Categories |'' @ [CHR 0x0A] @
                               ''| --- | --- | --- |'' @ [CHR 0x0A]))) \<and>
         (\<exists>s. exec cfg no_pages_run = Some s \<and> status s = Exited 0 \<and>
            csv_file s = Some [csv_header] \<and>
            md_file s = Some (''| Title | Publication Date | Categories |'' @ [CHR 0x0A] @
                              ''| --- | --- | --- |'' @ [CHR 0x0A]))"
proof -
  note w = writers_empty [OF assms(2,3)] writers_empty [OF assms(4,5)]
  have always: "spawned (trace s) = [] \<and> tasks s = [] \<and> chan s = [] \<and> allProducts s = [] \<and>
            (csv_file s = None \<or> csv_file s = Some [csv_header]) \<and>
            (md_file s = None \<or>
             md_file s = Some (''| Title | Publication Date | Categories |'' @ [CHR 0x0A] @
                               ''| --- | --- | --- |'' @ [CHR 0x0A]))"
    if e: "exec cfg sched = Some s" for sched s
  proof -
    from slots_exec [OF e] have "spawned (trace s) = [0 ..< frontier cfg (disp_pc s)]"
      and "frontier cfg (disp_pc s) \<le> pageMax cfg"
      by (simp_all add: slots_inv_def slots_ok_def)
    with assms(1) have "spawned (trace s) = []" by simp
    with zero_exec [OF assms(1) e] w(1,4) show ?thesis by (simp add: zero_ok_def)
  qed
  have "exec cfg no_pages_run =
      Some \<lparr>status = Exited 0, main_pc = M_returned, disp_pc = D_returned, cons_pc = C_returned,
            tasks = [], wg = 0, sem = 0, chan = [], closed = True, allProducts = [],
            csv_file = Some [csv_header],
            md_file = Some (''| Title | Publication Date | Categories |'' @ [CHR 0x0A] @
                              ''| --- | --- | --- |'' @ [CHR 0x0A]),
            trace = [ChanClosed, PrintDone]\<rparr>"
    using assms(1) w(1,4)
    by (simp add: exec_def no_pages_run_def no_pages_waited_def init_def step_def step_main_def
        step_disp_def step_cons_def)
  with always show ?thesis by simp
qed

theorem zero_pages_witness:
  "pageMax no_pages_cfg = 0 \<and>
   create_ok (csv_env no_pages_cfg) \<and> (\<forall>i. write_ok (csv_env no_pages_cfg) i) \<and>
   create_ok (md_env no_pages_cfg) \<and> (\<forall>i. write_ok (md_env no_pages_cfg) i) \<and>
   (\<exists>s. exec no_pages_cfg no_pages_waited = Some s \<and> tasks s = [] \<and> allProducts s = [] \<and>
        csv_file s = None) \<and>
   (\<exists>s. exec no_pages_cfg no_pages_run = Some s \<and> status s = Exited 0 \<and>
        csv_file s = Some [csv_header] \<and>
        md_file s = Some (''| Title | Publication Date | Categories |'' @ [CHR 0x0A] @
                          ''| --- | --- | --- |'' @ [CHR 0x0A]))"
proof -
  have h: "pageMax no_pages_cfg = 0"
    "create_ok (csv_env no_pages_cfg)" "\<forall>i. write_ok (csv_env no_pages_cfg) i"
    "create_ok (md_env no_pages_cfg)" "\<forall>i. write_ok (md_env no_pages_cfg) i"
    by (simp_all add: no_pages_cfg_def io_ok_def)
  note z = zero_pages [OF h]
  have "exec no_pages_cfg no_pages_waited \<noteq> None" by code_simp
  then obtain s where s: "exec no_pages_cfg no_pages_waited = Some s" by blast
  have "map_option csv_file (exec no_pages_cfg no_pages_waited) = Some None" by code_simp
  with s have "csv_file s = None" by simp
  with z s have "\<exists>s. exec no_pages_cfg no_pages_waited = Some s \<and> tasks s = [] \<and>
      allProducts s = [] \<and> csv_file s = None"
    by blast
  with h z show ?thesis by blast
qed

section \<open>The barrier and the aggregation\<close>

lemma wg_zero:
  assumes "wg_ok m d c ts w" and "w = 0"
  shows "filter pending ts = []" and "\<not> adding d"
    and "\<not> before_add_fetch m \<Longrightarrow> disp_done d"
    and "\<not> before_add_drain m \<Longrightarrow> cons_done c"
proof -
  define k where "k = length (filter pending ts)"
  from assms have "0 = int k + (if adding d then 1 else 0)
         + (if \<not> before_add_fetch m \<and> \<not> disp_done d then 1 else (0::int))
         + (if \<not> before_add_drain m \<and> \<not> cons_done c then 1 else 0)"
    by (simp add: wg_ok_def k_def)
  then have "k = 0 \<and> \<not> adding d \<and> \<not> (\<not> before_add_fetch m \<and> \<not> disp_done d)
      \<and> \<not> (\<not> before_add_drain m \<and> \<not> cons_done c)"
    by (simp split: if_splits)
  then show "filter pending ts = []" and "\<not> adding d"
    and "\<not> before_add_fetch m \<Longrightarrow> disp_done d"
    and "\<not> before_add_drain m \<Longrightarrow> cons_done c"
    by (simp_all add: k_def)
qed

lemma after_wait_simps:
  "after_wait m \<Longrightarrow> \<not> before_add_fetch m \<and> \<not> before_add_drain m \<and> \<not> before_go_drain m"
  by (cases m) simp_all

lemma not_pending_at:
  assumes "filter pending ts = []" and "p < length ts"
  shows "\<not> pending (ts ! p)"
  using assms by (metis filter_empty_conv nth_mem)

lemma barrier_init: "barrier_inv (init cfg)"
  by (simp add: barrier_inv_def barrier_ok_def init_def)

lemma barrier_main:
  assumes "barrier_inv s" and "step_main cfg s = Some s'"
  shows "barrier_inv s'"
proof -
  note ok = assms(1) [unfolded barrier_inv_def barrier_ok_def]
  show ?thesis
  proof (cases "main_pc s")
    case M_writeCSV
    show ?thesis
    proof (cases "writeCSV (csv_env cfg) (allProducts s)")
      case (Pair r f)
      with assms(2) ok M_writeCSV show ?thesis
        by (cases r) (auto simp add: step_main_def barrier_inv_def barrier_ok_def)
    qed
  next
    case M_writeMarkdown
    show ?thesis
    proof (cases "writeMarkdown (md_env cfg) (allProducts s)")
      case (Pair r f)
      with assms(2) ok M_writeMarkdown show ?thesis
        by (cases r) (auto simp add: step_main_def barrier_inv_def barrier_ok_def)
    qed
  next
    case M_wait
    with assms(2) ok show ?thesis
      by (auto simp add: step_main_def barrier_inv_def barrier_ok_def split: if_splits)
  next
    case M_go_drain
    with assms(2) ok show ?thesis
      by (auto simp add: step_main_def barrier_inv_def barrier_ok_def)
  qed (insert assms(2) ok, auto simp add: step_main_def barrier_inv_def barrier_ok_def)
qed

lemma barrier_disp:
  assumes "wg_inv s" and "barrier_inv s" and "step_disp cfg s = Some s'"
  shows "barrier_inv s'"
proof -
  note ok = assms(2) [unfolded barrier_inv_def barrier_ok_def]
  have frame: "main_pc s' = main_pc s \<and> cons_pc s' = cons_pc s \<and> chan s' = chan s \<and>
      (closed s \<longrightarrow> closed s')"
    using assms(3) by (cases "disp_pc s") (auto simp add: step_disp_def split: if_splits)
  have "wg s' = 0" if aw: "after_wait (main_pc s)"
  proof -
    from aw ok have z: "wg s = 0" by simp
    from aw have "\<not> before_add_fetch (main_pc s)" by (simp add: after_wait_simps)
    with wg_zero(3) [OF assms(1) [unfolded wg_inv_def] z] have "disp_done (disp_pc s)" by simp
    with assms(3) z show ?thesis
      by (cases "disp_pc s") (auto simp add: step_disp_def)
  qed
  with frame ok show ?thesis by (simp add: barrier_inv_def barrier_ok_def)
qed

lemma barrier_cons:
  assumes "wg_inv s" and "barrier_inv s" and "step_cons cfg s = Some s'"
  shows "barrier_inv s'"
proof -
  note ok = assms(2) [unfolded barrier_inv_def barrier_ok_def]
  show ?thesis
  proof (cases "cons_pc s")
    case C_idle
    with assms(3) show ?thesis by (simp add: step_cons_def)
  next
    case C_returned
    with assms(3) show ?thesis by (simp add: step_cons_def)
  next
    case C_range
    with assms(3) ok show ?thesis
      by (cases "chan s")
         (auto simp add: step_cons_def barrier_inv_def barrier_ok_def split: if_splits)
  next
    case C_done
    have nw: "\<not> after_wait (main_pc s)"
    proof
      assume aw: "after_wait (main_pc s)"
      with ok have z: "wg s = 0" by simp
      from aw have "\<not> before_add_drain (main_pc s)" by (simp add: after_wait_simps)
      with wg_zero(4) [OF assms(1) [unfolded wg_inv_def] z] have "cons_done (cons_pc s)" by simp
      with C_done show False by simp
    qed
    from assms(3) C_done have "main_pc s' = main_pc s \<and> chan s' = chan s \<and>
        closed s' = closed s \<and> (cons_pc s' = C_done \<or> cons_pc s' = C_returned)"
      by (auto simp add: step_cons_def split: if_splits)
    with ok nw C_done show ?thesis by (auto simp add: barrier_inv_def barrier_ok_def)
  qed
qed

lemma barrier_task:
  assumes "wg_inv s" and "barrier_inv s" and "step_task cfg p s = Some s'"
  shows "barrier_inv s'"
proof -
  from assms(3) have p: "p < length (tasks s)"
    by (simp add: step_task_def split: if_splits)
  note ok = assms(2) [unfolded barrier_inv_def barrier_ok_def]
  have idle: "\<not> pending (tasks s ! p)" if "after_wait (main_pc s)"
  proof -
    from that ok have "wg s = 0" by simp
    from wg_zero(1) [OF assms(1) [unfolded wg_inv_def] this] p show ?thesis
      by (rule not_pending_at)
  qed
  show ?thesis
  proof (cases "tasks s ! p")
    case T_idle
    with assms(3) p show ?thesis by (simp add: step_task_def)
  next
    case T_returned
    with assms(3) p show ?thesis by (simp add: step_task_def)
  next
    case T_fetch
    with idle have nw: "\<not> after_wait (main_pc s)" by auto
    from assms(3) p T_fetch have "main_pc s' = main_pc s \<and> cons_pc s' = cons_pc s \<and>
        chan s' = chan s \<and> closed s' = closed s"
      by (cases "fetchData cfg p") (auto simp add: step_task_def)
    with ok nw show ?thesis by (simp add: barrier_inv_def barrier_ok_def)
  next
    case (T_send b)
    with idle have nw: "\<not> after_wait (main_pc s)" by auto
    show ?thesis
    proof (cases "closed s")
      case True
      with assms(3) p T_send have
        "s' = s\<lparr>tasks := (tasks s)[p := T_release (Some SendOnClosedChannel)]\<rparr>"
        by (simp add: step_task_def)
      with ok nw show ?thesis by (simp add: barrier_inv_def barrier_ok_def)
    next
      case False
      with assms(3) p T_send have
        "s' = s\<lparr>chan := chan s @ [b], tasks := (tasks s)[p := T_release None],
                  trace := trace s @ [Sent p]\<rparr>"
        by (simp add: step_task_def split: if_splits)
      with ok nw False show ?thesis by (auto simp add: barrier_inv_def barrier_ok_def)
    qed
  next
    case (T_release panicking)
    with idle have nw: "\<not> after_wait (main_pc s)" by auto
    from assms(3) p T_release have
      "s' = s\<lparr>sem := sem s - 1, tasks := (tasks s)[p := T_done panicking]\<rparr>"
      by (simp add: step_task_def split: if_splits)
    with ok nw show ?thesis by (simp add: barrier_inv_def barrier_ok_def)
  next
    case (T_done panicking)
    with idle have nw: "\<not> after_wait (main_pc s)" by auto
    from assms(3) p T_done have "main_pc s' = main_pc s \<and> cons_pc s' = cons_pc s \<and>
        chan s' = chan s \<and> closed s' = closed s"
      by (auto simp add: step_task_def split: if_splits)
    with ok nw show ?thesis by (simp add: barrier_inv_def barrier_ok_def)
  next
    case (T_fatal e)
    with assms(3) p have "s' = s\<lparr>trace := trace s @ [PanicMsg e], status := Exited 2\<rparr>"
      by (simp add: step_task_def)
    with ok show ?thesis by (simp add: barrier_inv_def barrier_ok_def)
  qed
qed

lemma sent_append [simp]: "sent (es @ es') = sent es @ sent es'"
  by (induction es rule: sent.induct) simp_all

lemma data_init: "data_inv cfg (init cfg)"
  by (simp add: data_inv_def init_def)

lemma data_main:
  assumes "data_inv cfg s" and "step_main cfg s = Some s'"
  shows "data_inv cfg s'"
proof -
  have "allProducts s' = allProducts s \<and> chan s' = chan s \<and> sent (trace s') = sent (trace s)"
    using assms(2)
    by (cases "main_pc s")
       (auto simp add: step_main_def split: prod.splits write_result.splits if_splits)
  with assms(1) show ?thesis by (simp add: data_inv_def)
qed

lemma data_disp:
  assumes "data_inv cfg s" and "step_disp cfg s = Some s'"
  shows "data_inv cfg s'"
proof -
  have "allProducts s' = allProducts s \<and> chan s' = chan s \<and> sent (trace s') = sent (trace s)"
    using assms(2) by (cases "disp_pc s") (auto simp add: step_disp_def split: if_splits)
  with assms(1) show ?thesis by (simp add: data_inv_def)
qed

lemma data_cons:
  assumes "data_inv cfg s" and "step_cons cfg s = Some s'"
  shows "data_inv cfg s'"
proof (cases "cons_pc s")
  case C_range
  show ?thesis
  proof (cases "chan s")
    case Nil
    with assms C_range show ?thesis
      by (auto simp add: step_cons_def data_inv_def split: if_splits)
  next
    case (Cons products rest)
    with assms(2) C_range have "s' = s\<lparr>chan := rest, allProducts := allProducts s @ products\<rparr>"
      by (simp add: step_cons_def)
    with assms(1) Cons show ?thesis by (simp add: data_inv_def)
  qed
next
  case C_done
  with assms show ?thesis by (auto simp add: step_cons_def data_inv_def split: if_splits)
qed (insert assms, simp_all add: step_cons_def)

lemma data_task:
  assumes "tasks_inv cfg s" and "data_inv cfg s" and "step_task cfg p s = Some s'"
  shows "data_inv cfg s'"
proof -
  from assms(3) have p: "p < length (tasks s)"
    by (simp add: step_task_def split: if_splits)
  show ?thesis
  proof (cases "tasks s ! p")
    case (T_send b)
    from assms(1) p have "task_ok cfg p (tasks s ! p) (trace s) (closed s)"
      using tasks_inv_def [of cfg s] by (simp add: task_at_def) (metis p)
    with T_send have b: "batch cfg p = b"
      by (cases "fetchData cfg p") (simp_all add: task_ok_def batch_def)
    show ?thesis
    proof (cases "closed s")
      case True
      with assms(3) p T_send have
        "s' = s\<lparr>tasks := (tasks s)[p := T_release (Some SendOnClosedChannel)]\<rparr>"
        by (simp add: step_task_def)
      with assms(2) show ?thesis by (simp add: data_inv_def)
    next
      case False
      with assms(3) p T_send have
        "s' = s\<lparr>chan := chan s @ [b], tasks := (tasks s)[p := T_release None],
                  trace := trace s @ [Sent p]\<rparr>"
        by (simp add: step_task_def split: if_splits)
      with assms(2) b show ?thesis by (simp add: data_inv_def)
    qed
  next
    case T_fetch
    with assms(3) p have
      "allProducts s' = allProducts s \<and> chan s' = chan s \<and> sent (trace s') = sent (trace s)"
      by (cases "fetchData cfg p") (auto simp add: step_task_def)
    with assms(2) show ?thesis by (simp add: data_inv_def)
  next
    case (T_release panicking)
    with assms(3) p have
      "allProducts s' = allProducts s \<and> chan s' = chan s \<and> sent (trace s') = sent (trace s)"
      by (auto simp add: step_task_def split: if_splits)
    with assms(2) show ?thesis by (simp add: data_inv_def)
  next
    case (T_done panicking)
    with assms(3) p have
      "allProducts s' = allProducts s \<and> chan s' = chan s \<and> sent (trace s') = sent (trace s)"
      by (auto simp add: step_task_def split: if_splits)
    with assms(2) show ?thesis by (simp add: data_inv_def)
  next
    case (T_fatal e)
    with assms(3) p have
      "allProducts s' = allProducts s \<and> chan s' = chan s \<and> sent (trace s') = sent (trace s)"
      by (auto simp add: step_task_def split: if_splits)
    with assms(2) show ?thesis by (simp add: data_inv_def)
  qed (insert assms(3) p, simp_all add: step_task_def)
qed

lemma full_inv_step:
  assumes "(slots_inv cfg s \<and> wg_inv s \<and> tasks_inv cfg s) \<and> barrier_inv s \<and> data_inv cfg s"
    and "step cfg t s = Some s'"
  shows "(slots_inv cfg s' \<and> wg_inv s' \<and> tasks_inv cfg s') \<and> barrier_inv s' \<and> data_inv cfg s'"
proof -
  from assms have a: "slots_inv cfg s' \<and> wg_inv s' \<and> tasks_inv cfg s'"
    using all_inv_step [of cfg s t s'] by simp
  from assms(1) have w: "wg_inv s" and b: "barrier_inv s" and d: "data_inv cfg s"
    and k: "tasks_inv cfg s" by simp_all
  have "barrier_inv s' \<and> data_inv cfg s'"
  proof (cases t)
    case Main
    with assms(2) have "step_main cfg s = Some s'" by (rule step_Some(2))
    with b d show ?thesis by (simp add: barrier_main data_main)
  next
    case Dispatcher
    with assms(2) have "step_disp cfg s = Some s'" by (rule step_Some(3))
    with w b d show ?thesis by (simp add: barrier_disp data_disp)
  next
    case Consumer
    with assms(2) have "step_cons cfg s = Some s'" by (rule step_Some(4))
    with w b d show ?thesis by (simp add: barrier_cons data_cons)
  next
    case (Task p)
    with assms(2) have "step_task cfg p s = Some s'" by (rule step_Some(5))
    with w b d k show ?thesis by (simp add: barrier_task data_task)
  qed
  with a show ?thesis by simp
qed

lemma full_exec:
  assumes "exec cfg sched = Some s"
  shows "barrier_inv s" and "data_inv cfg s"
proof -
  have "(slots_inv cfg s \<and> wg_inv s \<and> tasks_inv cfg s) \<and> barrier_inv s \<and> data_inv cfg s"
    using invariant_exec [of "\<lambda>s. (slots_inv cfg s \<and> wg_inv s \<and> tasks_inv cfg s) \<and>
        barrier_inv s \<and> data_inv cfg s" cfg sched s]
      slots_init wg_init tasks_init barrier_init data_init full_inv_step assms
    by blast
  then show "barrier_inv s" and "data_inv cfg s" by simp_all
qed

section \<open>After the barrier\<close>

lemma count_sent: "count_list (sent tr) p = count_list tr (Sent p)"
  by (induction tr rule: sent.induct) simp_all

lemma distinct_count:
  assumes "\<And>x. count_list xs x \<le> 1"
  shows "distinct xs"
  using assms
proof (induction xs)
  case Nil
  then show ?case by simp
next
  case (Cons a xs)
  from Cons.prems [of a] have "count_list xs a = 0" by simp
  then have "a \<notin> set xs" by (simp add: count_list_0_iff)
  moreover have "count_list xs x \<le> 1" for x
    using Cons.prems [of x] by (simp split: if_splits)
  ultimately show ?case using Cons.IH by simp
qed

lemma task_ok_exec:
  assumes "exec cfg sched = Some s"
  shows "task_ok cfg p (task_at (tasks s) p) (trace s) (closed s)"
  using tasks_exec [OF assms] by (simp add: tasks_inv_def)

lemma quiescent:
  assumes "exec cfg sched = Some s" and "after_wait (main_pc s)"
  shows "wg s = 0" and "disp_done (disp_pc s)" and "cons_pc s = C_returned"
    and "closed s" and "chan s = []"
    and "p < pageMax cfg \<Longrightarrow> tasks s ! p = T_returned \<or> (\<exists>e. tasks s ! p = T_fatal e)"
proof -
  from full_exec(1) [OF assms(1)] assms(2) show z: "wg s = 0"
    by (simp add: barrier_inv_def barrier_ok_def)
  note w = wg_zero [OF wg_exec [OF assms(1), unfolded wg_inv_def] z]
  from w(3) assms(2) show d: "disp_done (disp_pc s)" by (simp add: after_wait_simps)
  from w(4) assms(2) have "cons_done (cons_pc s)" by (simp add: after_wait_simps)
  then show c: "cons_pc s = C_returned" by (cases "cons_pc s") simp_all
  with full_exec(1) [OF assms(1)] show "closed s" and "chan s = []"
    by (simp_all add: barrier_inv_def barrier_ok_def)
  show "tasks s ! p = T_returned \<or> (\<exists>e. tasks s ! p = T_fatal e)" if p: "p < pageMax cfg"
  proof -
    from slots_exec [OF assms(1)] have len: "length (tasks s) = pageMax cfg"
      and idle: "\<forall>q < pageMax cfg. (frontier cfg (disp_pc s) \<le> q) = (tasks s ! q = T_idle)"
      by (simp_all add: slots_inv_def slots_ok_def)
    from d have "frontier cfg (disp_pc s) = pageMax cfg" by (cases "disp_pc s") simp_all
    with idle p have "tasks s ! p \<noteq> T_idle" by auto
    moreover from w(1) p len have "\<not> pending (tasks s ! p)" by (simp add: not_pending_at)
    ultimately show ?thesis by (cases "tasks s ! p") simp_all
  qed
qed

text \<open>
  What holds of the aggregation in every run: once \<^verbatim>\<open>main\<close> is past \<^verbatim>\<open>wg.Wait()\<close>,
  \<^verbatim>\<open>allProducts\<close> is the concatenation, in the order of the sends, of the batches of
  the pages that were sent; each page was sent at most once; the pages sent are
  those whose fetch succeeded and whose goroutine returned; and every other
  goroutine of a page whose fetch succeeded has panicked on the closed channel.
\<close>

lemma aggregation_after_barrier:
  assumes "exec cfg sched = Some s" and "after_wait (main_pc s)"
  shows "allProducts s = concat (map (batch cfg) (sent (trace s)))"
    and "distinct (sent (trace s))"
    and "set (sent (trace s)) =
           {p. p < pageMax cfg \<and> (\<exists>b. fetchData cfg p = Inr b) \<and> tasks s ! p = T_returned}"
    and "\<forall>p < pageMax cfg. tasks s ! p = T_returned \<or> tasks s ! p = T_fatal SendOnClosedChannel"
proof -
  from full_exec(2) [OF assms(1)] quiescent(5) [OF assms]
  show "allProducts s = concat (map (batch cfg) (sent (trace s)))"
    by (simp add: data_inv_def)
  from slots_exec [OF assms(1)] have len: "length (tasks s) = pageMax cfg"
    by (simp_all add: slots_inv_def slots_ok_def)
  have cnt: "count_list (sent (trace s)) p =
      (if p < pageMax cfg \<and> (\<exists>b. fetchData cfg p = Inr b) \<and> tasks s ! p = T_returned
       then 1 else 0)" for p
  proof (cases "p < pageMax cfg")
    case False
    with len have "task_at (tasks s) p = T_idle" by (simp add: task_at_def)
    with task_ok_exec [OF assms(1), of p] have "count_list (trace s) (Sent p) = 0"
      by (cases "fetchData cfg p") (simp_all add: task_ok_def)
    with False show ?thesis by (simp add: count_sent)
  next
    case True
    with len have at: "task_at (tasks s) p = tasks s ! p" by (simp add: task_at_def)
    from quiescent(6) [OF assms True] have
      "after_normal (tasks s ! p) = (tasks s ! p = T_returned)" by auto
    with task_ok_exec [OF assms(1), of p] at True show ?thesis
      by (cases "fetchData cfg p") (simp_all add: task_ok_def count_sent)
  qed
  then have "count_list (sent (trace s)) p \<le> 1" for p by simp
  then show "distinct (sent (trace s))" by (rule distinct_count)
  have "(p \<in> set (sent (trace s))) =
      (p < pageMax cfg \<and> (\<exists>b. fetchData cfg p = Inr b) \<and> tasks s ! p = T_returned)" for p
    using cnt [of p] count_list_0_iff [of "sent (trace s)" p] by (simp split: if_splits)
  then show "set (sent (trace s)) =
      {p. p < pageMax cfg \<and> (\<exists>b. fetchData cfg p = Inr b) \<and> tasks s ! p = T_returned}"
    by blast
  show "\<forall>p < pageMax cfg. tasks s ! p = T_returned \<or> tasks s ! p = T_fatal SendOnClosedChannel"
  proof (intro allI impI)
    fix p assume p: "p < pageMax cfg"
    with len have at: "task_at (tasks s) p = tasks s ! p" by (simp add: task_at_def)
    from quiescent(6) [OF assms p] show
      "tasks s ! p = T_returned \<or> tasks s ! p = T_fatal SendOnClosedChannel"
    proof
      assume "\<exists>e. tasks s ! p = T_fatal e"
      then obtain e where e: "tasks s ! p = T_fatal e" by blast
      with task_ok_exec [OF assms(1), of p] at have "e = SendOnClosedChannel"
        by (cases "fetchData cfg p") (simp_all add: task_ok_def)
      with e show ?thesis by simp
    qed simp
  qed
qed

text \<open>
  Claim C6. In every state of every run the goroutines launched so far are those
  of the pages \<open>0, 1, ..., k - 1\<close>, in this order, where \<open>k \<le> pageMax\<close> is the next
  page of the dispatch loop: every page below \<open>k\<close> has been launched exactly once
  and no other page has been; \<^verbatim>\<open>fetchData\<close> has been called at most once for a page,
  and only for a page launched. Once the loop is over, \<open>k = pageMax\<close>; and once
  \<^verbatim>\<open>main\<close> is past \<^verbatim>\<open>wg.Wait()\<close>, every page below \<^verbatim>\<open>pageMax\<close> has been launched
  exactly once and fetched exactly once, whether its fetch failed or not.
\<close>

theorem dispatch_exactly_once:
  assumes "exec cfg sched = Some s"
  shows "spawned (trace s) = [0 ..< frontier cfg (disp_pc s)] \<and>
         frontier cfg (disp_pc s) \<le> pageMax cfg \<and>
         (\<forall>p. count_list (spawned (trace s)) p = (if p < frontier cfg (disp_pc s) then 1 else 0)) \<and>
         (\<forall>p. count_list (trace s) (Fetched p) \<le> 1 \<and>
              (Fetched p \<in> set (trace s) \<longrightarrow> p < frontier cfg (disp_pc s))) \<and>
         (dispatch_finished (disp_pc s) \<longrightarrow> spawned (trace s) = [0 ..< pageMax cfg]) \<and>
         (after_wait (main_pc s) \<longrightarrow>
            spawned (trace s) = [0 ..< pageMax cfg] \<and>
            (\<forall>p < pageMax cfg. count_list (trace s) (Fetched p) = 1))"
proof -
  from slots_exec [OF assms] have ok:
    "slots_ok cfg (main_pc s) (disp_pc s) (tasks s) (sem s) (spawned (trace s))"
    by (simp add: slots_inv_def)
  then have sp: "spawned (trace s) = [0 ..< frontier cfg (disp_pc s)]"
    and le: "frontier cfg (disp_pc s) \<le> pageMax cfg"
    and len: "length (tasks s) = pageMax cfg"
    and idle: "\<forall>q < pageMax cfg. (frontier cfg (disp_pc s) \<le> q) = (tasks s ! q = T_idle)"
    by (simp_all add: slots_ok_def)
  have cnt: "count_list [0 ..< k] p = (if p < k then 1 else 0)" for k p :: nat
    by (induction k) auto
  have fin: "frontier cfg (disp_pc s) = pageMax cfg" if "dispatch_finished (disp_pc s)"
    using that by (cases "disp_pc s") simp_all
  have f: "count_list (trace s) (Fetched p) = (if fetched (task_at (tasks s) p) then 1 else 0)"
    for p
    using task_ok_exec [OF assms, of p] by (simp add: task_ok_def)
  have once: "count_list (trace s) (Fetched p) \<le> 1" for p
    using f [of p] by simp
  have launched: "p < frontier cfg (disp_pc s)" if "Fetched p \<in> set (trace s)" for p
  proof -
    from that have "count_list (trace s) (Fetched p) \<noteq> 0" by (simp add: count_list_0_iff)
    with f [of p] have ft: "fetched (task_at (tasks s) p)" by (simp split: if_splits)
    then have p: "p < pageMax cfg" using len by (auto simp add: task_at_def split: if_splits)
    with ft len have "tasks s ! p \<noteq> T_idle" by (auto simp add: task_at_def)
    with idle p show ?thesis by auto
  qed
  have waited: "spawned (trace s) = [0 ..< pageMax cfg] \<and>
      (\<forall>p < pageMax cfg. count_list (trace s) (Fetched p) = 1)"
    if aw: "after_wait (main_pc s)"
  proof -
    from quiescent(2) [OF assms aw] have "frontier cfg (disp_pc s) = pageMax cfg"
      by (cases "disp_pc s") simp_all
    with sp have a: "spawned (trace s) = [0 ..< pageMax cfg]" by simp
    have "count_list (trace s) (Fetched p) = 1" if p: "p < pageMax cfg" for p
    proof -
      from quiescent(6) [OF assms aw p] have "fetched (tasks s ! p)" by auto
      with f [of p] p len show ?thesis by (simp add: task_at_def)
    qed
    with a show ?thesis by simp
  qed
  from sp le cnt fin once launched waited show ?thesis by simp
qed

theorem dispatch_exactly_once_witness:
  "(\<exists>s. exec example_cfg page1_launched = Some s \<and> spawned (trace s) = [0, 1] \<and>
        Fetched 0 \<in> set (trace s) \<and> frontier example_cfg (disp_pc s) = 2 \<and>
        \<not> dispatch_finished (disp_pc s)) \<and>
   (\<exists>s. exec example_cfg example_run = Some s \<and> status s = Exited 0 \<and>
        dispatch_finished (disp_pc s) \<and> after_wait (main_pc s) \<and> pageMax example_cfg = 2 \<and>
        spawned (trace s) = [0, 1] \<and>
        count_list (trace s) (Fetched 0) = 1 \<and> count_list (trace s) (Fetched 1) = 1)"
proof -
  let ?r1 = "exec example_cfg page1_launched"
  let ?r2 = "exec example_cfg example_run"
  have "?r1 \<noteq> None" and "?r2 \<noteq> None" by code_simp+
  then obtain s1 s2 where r: "?r1 = Some s1" "?r2 = Some s2" by blast
  have "map_option (\<lambda>s. (disp_pc s, Fetched 0 \<in> set (trace s))) ?r1 = Some (D_loop 2, True)"
    and "map_option (\<lambda>s. (status s, disp_pc s, main_pc s)) ?r2 =
           Some (Exited 0, D_returned, M_returned)"
    and n: "pageMax example_cfg = 2"
    by code_simp+
  with r have v: "disp_pc s1 = D_loop 2" "Fetched 0 \<in> set (trace s1)"
    "status s2 = Exited 0" "disp_pc s2 = D_returned" "main_pc s2 = M_returned"
    by simp_all
  have u: "[0 ..< 2] = [0, Suc 0]" by (simp add: upt_rec)
  from dispatch_exactly_once [OF r(1)] v(1,2) r(1) u
  have "\<exists>s. ?r1 = Some s \<and> spawned (trace s) = [0, 1] \<and>
        Fetched 0 \<in> set (trace s) \<and> frontier example_cfg (disp_pc s) = 2 \<and>
        \<not> dispatch_finished (disp_pc s)"
    by simp
  moreover from dispatch_exactly_once [OF r(2)] v(3,4,5) r(2) n u
  have "\<exists>s. ?r2 = Some s \<and> status s = Exited 0 \<and>
        dispatch_finished (disp_pc s) \<and> after_wait (main_pc s) \<and> pageMax example_cfg = 2 \<and>
        spawned (trace s) = [0, 1] \<and>
        count_list (trace s) (Fetched 0) = 1 \<and> count_list (trace s) (Fetched 1) = 1"
    by simp
  ultimately show ?thesis by blast
qed

section \<open>The close of the channel in src/unnamed/part_000\<close>

lemma variant_ok_D:
  assumes "variant_ok cfg m d ts w cl"
  shows "length ts = pageMax cfg"
    and "(d = F_idle) = (m = P_add \<or> m = P_go_fetch)"
    and "frontier0 cfg d \<le> pageMax cfg"
    and "launching0 d \<longrightarrow> frontier0 cfg d < pageMax cfg"
    and "\<forall>q < pageMax cfg. (frontier0 cfg d \<le> q) = (ts ! q = T_idle)"
    and "w = int (length (filter pending ts)) + (if adding0 d then 1 else 0)
         + (if m \<noteq> P_add \<and> d \<noteq> F_returned then 1 else 0)"
    and "waited0 m \<longrightarrow> w = 0"
    and "cl = closing0 m"
    and "\<forall>q < pageMax cfg. panic_of (ts ! q) = None"
  using assms unfolding variant_ok_def by blast+

lemma variant_ok_I:
  assumes "length ts = pageMax cfg"
    and "(d = F_idle) = (m = P_add \<or> m = P_go_fetch)"
    and "frontier0 cfg d \<le> pageMax cfg"
    and "launching0 d \<longrightarrow> frontier0 cfg d < pageMax cfg"
    and "\<forall>q < pageMax cfg. (frontier0 cfg d \<le> q) = (ts ! q = T_idle)"
    and "w = int (length (filter pending ts)) + (if adding0 d then 1 else 0)
         + (if m \<noteq> P_add \<and> d \<noteq> F_returned then 1 else 0)"
    and "waited0 m \<longrightarrow> w = 0"
    and "cl = closing0 m"
    and "\<forall>q < pageMax cfg. panic_of (ts ! q) = None"
  shows "variant_ok cfg m d ts w cl"
  using assms unfolding variant_ok_def by blast

lemma all_update:
  assumes "\<forall>q<n. P (ts ! q)" and "P t"
  shows "\<forall>q<n. P (ts[p := t] ! q)"
  using assms by (cases "p < length ts") (auto simp add: nth_list_update list_update_beyond)

lemma variant_pending:
  assumes "variant_ok cfg m d ts w cl" and "p < length ts" and "pending (ts ! p)"
  shows "0 < w" and "\<not> waited0 m" and "\<not> cl"
proof -
  note v = variant_ok_D [OF assms(1)]
  from assms(2,3) have "0 < length (filter pending ts)" by (rule filter_pos)
  with v(6) show w: "0 < w" by (simp split: if_splits)
  with v(7) show nw: "\<not> waited0 m" by auto
  with v(8) show "\<not> cl" by (cases m) simp_all
qed

lemma variant_task_same:
  assumes "variant_ok cfg m d ts w cl" and "p < length ts"
    and "ts ! p \<noteq> T_idle" and "t \<noteq> T_idle"
    and "pending t = pending (ts ! p)" and "panic_of t = None"
  shows "variant_ok cfg m d (ts[p := t]) w cl"
proof -
  note v = variant_ok_D [OF assms(1)]
  have c: "length (filter pending (ts[p := t])) = length (filter pending ts)"
    using assms(2,5) by (simp add: filter_update_same)
  have i: "\<forall>q<pageMax cfg. (frontier0 cfg d \<le> q) = (ts[p := t] ! q = T_idle)"
    using idle_update [OF v(5) assms(3,4)] .
  have n: "\<forall>q < pageMax cfg. panic_of (ts[p := t] ! q) = None"
    using all_update [of "pageMax cfg" "\<lambda>t. panic_of t = None" ts t p] v(9) assms(6) by simp
  show ?thesis
    by (rule variant_ok_I) (use v c i n in simp_all)
qed

lemma variant_task_done:
  assumes "variant_ok cfg m d ts w cl" and "p < length ts"
    and "pending (ts ! p)" and "t \<noteq> T_idle"
    and "\<not> pending t" and "panic_of t = None"
  shows "variant_ok cfg m d (ts[p := t]) (w - 1) cl"
proof -
  note v = variant_ok_D [OF assms(1)]
  note pd = variant_pending [OF assms(1,2,3)]
  define k where "k = length (filter pending ts)"
  define k' where "k' = length (filter pending (ts[p := t]))"
  have "Suc k' = k"
    unfolding k_def k'_def using assms(2,3,5) by (rule filter_update_lose)
  with v(6) have c: "w - 1 = int k' + (if adding0 d then 1 else 0)
         + (if m \<noteq> P_add \<and> d \<noteq> F_returned then 1 else 0)"
    by (simp add: k_def)
  from assms(3) have "ts ! p \<noteq> T_idle" by auto
  then have i: "\<forall>q<pageMax cfg. (frontier0 cfg d \<le> q) = (ts[p := t] ! q = T_idle)"
    using idle_update [OF v(5) _ assms(4)] by blast
  have n: "\<forall>q < pageMax cfg. panic_of (ts[p := t] ! q) = None"
    using all_update [of "pageMax cfg" "\<lambda>t. panic_of t = None" ts t p] v(9) assms(6) by simp
  show ?thesis
    by (rule variant_ok_I) (use v(1-4,8) c i n pd(2) in \<open>simp_all add: k'_def\<close>)
qed

lemma variant_init: "variant_inv cfg (init0 cfg)"
  by (simp add: variant_inv_def variant_ok_def init0_def)

lemma variant_main:
  assumes "variant_inv cfg s" and "step_main0 cfg s = Some s'"
  shows "variant_inv cfg s'"
proof -
  note ok = assms(1) [unfolded variant_inv_def]
  note v = variant_ok_D [OF ok]
  show ?thesis
  proof (cases "main0 s")
    case P_add
    with assms(2) have s': "s' = s\<lparr>wg0 := wg0 s + 1, main0 := P_go_fetch\<rparr>"
      by (simp add: step_main0_def)
    from v(2) P_add have d: "disp0 s = F_idle" by simp
    show ?thesis
      unfolding variant_inv_def s'
      by (rule variant_ok_I) (use v d P_add in simp_all)
  next
    case P_go_fetch
    with assms(2) have s': "s' = s\<lparr>disp0 := F_loop 0, main0 := P_go_writer\<rparr>"
      by (simp add: step_main0_def)
    from v(2) P_go_fetch have d: "disp0 s = F_idle" by simp
    show ?thesis
      unfolding variant_inv_def s'
      by (rule variant_ok_I) (use v d P_go_fetch in simp_all)
  next
    case P_go_writer
    with assms(2) have s': "s' = s\<lparr>writer0 := W_open, main0 := P_wait\<rparr>"
      by (simp add: step_main0_def)
    show ?thesis
      unfolding variant_inv_def s'
      by (rule variant_ok_I) (use v P_go_writer in simp_all)
  next
    case P_wait
    with assms(2) have s': "s' = s\<lparr>main0 := P_close\<rparr>" and z: "wg0 s = 0"
      by (simp_all add: step_main0_def split: if_splits)
    show ?thesis
      unfolding variant_inv_def s'
      by (rule variant_ok_I) (use v z P_wait in simp_all)
  next
    case P_close
    with v(8) have "\<not> closed0 s" by simp
    with assms(2) P_close have s': "s' = s\<lparr>closed0 := True, trace0 := trace0 s @ [ChanClosed],
        main0 := P_recv_done\<rparr>"
      by (simp add: step_main0_def)
    show ?thesis
      unfolding variant_inv_def s'
      by (rule variant_ok_I) (use v P_close in simp_all)
  next
    case P_recv_done
    with assms(2) have s': "s' = s\<lparr>main0 := P_println\<rparr>"
      by (simp add: step_main0_def split: if_splits)
    show ?thesis
      unfolding variant_inv_def s'
      by (rule variant_ok_I) (use v P_recv_done in simp_all)
  next
    case P_println
    with assms(2) have s': "s' = s\<lparr>trace0 := trace0 s @ [PrintDone], main0 := P_returned,
        status0 := Exited 0\<rparr>"
      by (simp add: step_main0_def)
    show ?thesis
      unfolding variant_inv_def s'
      by (rule variant_ok_I) (use v P_println in simp_all)
  next
    case P_returned
    with assms(2) show ?thesis by (simp add: step_main0_def)
  qed
qed

lemma variant_disp:
  assumes "variant_inv cfg s" and "step_disp0 cfg s = Some s'"
  shows "variant_inv cfg s'"
proof -
  note ok = assms(1) [unfolded variant_inv_def]
  note v = variant_ok_D [OF ok]
  have started: "main0 s \<noteq> P_add" if "disp0 s \<noteq> F_idle"
    using that v(2) by simp
  have busy: "\<not> waited0 (main0 s)" if "disp0 s \<noteq> F_idle" "disp0 s \<noteq> F_returned"
  proof
    assume "waited0 (main0 s)"
    with v(7) have "wg0 s = 0" by simp
    with v(6) started [OF that(1)] that(2) show False by (simp split: if_splits)
  qed
  show ?thesis
  proof (cases "disp0 s")
    case F_idle
    with assms(2) show ?thesis by (simp add: step_disp0_def)
  next
    case F_returned
    with assms(2) show ?thesis by (simp add: step_disp0_def)
  next
    case (F_loop page)
    show ?thesis
    proof (cases "page < pageMax cfg")
      case True
      with assms(2) F_loop have s': "s' = s\<lparr>sem0 := sem0 s + 1, disp0 := F_add page\<rparr>"
        by (simp add: step_disp0_def split: if_splits)
      show ?thesis
        unfolding variant_inv_def s'
        by (rule variant_ok_I) (use v F_loop True in simp_all)
    next
      case False
      with assms(2) F_loop have s': "s' = s\<lparr>disp0 := F_done\<rparr>"
        by (simp add: step_disp0_def)
      from False v(3) F_loop have "page = pageMax cfg" by simp
      then show ?thesis
        unfolding variant_inv_def s'
        by (intro variant_ok_I) (use v F_loop in simp_all)
    qed
  next
    case (F_add page)
    with assms(2) have s': "s' = s\<lparr>wg0 := wg0 s + 1, disp0 := F_go page\<rparr>"
      by (simp add: step_disp0_def)
    from busy F_add have nw: "\<not> waited0 (main0 s)" by simp
    show ?thesis
      unfolding variant_inv_def s'
      by (rule variant_ok_I) (use v F_add nw in simp_all)
  next
    case (F_go page)
    with assms(2) have s': "s' = s\<lparr>tasks0 := (tasks0 s)[page := T_fetch],
        trace0 := trace0 s @ [Spawned page], disp0 := F_loop (page + 1)\<rparr>"
      by (simp add: step_disp0_def)
    from busy F_go have nw: "\<not> waited0 (main0 s)" by simp
    from v(4) F_go have page: "page < pageMax cfg" by simp
    with v(5) F_go have idle: "tasks0 s ! page = T_idle" by auto
    have c: "length (filter pending ((tasks0 s)[page := T_fetch])) =
        Suc (length (filter pending (tasks0 s)))"
      using page v(1) idle by (simp add: filter_update_gain)
    have i: "\<forall>q < pageMax cfg. (Suc page \<le> q) = ((tasks0 s)[page := T_fetch] ! q = T_idle)"
    proof (intro allI impI)
      fix q assume q: "q < pageMax cfg"
      show "(Suc page \<le> q) = ((tasks0 s)[page := T_fetch] ! q = T_idle)"
      proof (cases "q = page")
        case True
        then show ?thesis using v(1) page by simp
      next
        case False
        then have "(tasks0 s)[page := T_fetch] ! q = tasks0 s ! q" by simp
        moreover have "(page \<le> q) = (tasks0 s ! q = T_idle)" using v(5) q F_go by simp
        ultimately show ?thesis using False by auto
      qed
    qed
    have n: "\<forall>q < pageMax cfg. panic_of ((tasks0 s)[page := T_fetch] ! q) = None"
      using all_update [of "pageMax cfg" "\<lambda>t. panic_of t = None" "tasks0 s" T_fetch page] v(9)
      by simp
    show ?thesis
      unfolding variant_inv_def s'
      by (rule variant_ok_I) (use v(1,2,3,6,8) F_go page nw c i n in simp_all)
  next
    case F_done
    from started F_done have m: "main0 s \<noteq> P_add" by simp
    with v(6) F_done have pos: "0 < wg0 s" by simp
    with assms(2) F_done have s': "s' = s\<lparr>wg0 := wg0 s - 1, disp0 := F_returned\<rparr>"
      by (simp add: step_disp0_def)
    from busy F_done have nw: "\<not> waited0 (main0 s)" by simp
    show ?thesis
      unfolding variant_inv_def s'
      by (rule variant_ok_I) (use v F_done m nw in simp_all)
  qed
qed

lemma variant_writer:
  assumes "variant_inv cfg s" and "step_writer0 cfg s = Some s'"
  shows "variant_inv cfg s'"
proof -
  have "main0 s' = main0 s \<and> disp0 s' = disp0 s \<and> tasks0 s' = tasks0 s \<and>
      wg0 s' = wg0 s \<and> closed0 s' = closed0 s"
  proof (cases "writer0 s")
    case (W_range i)
    show ?thesis
    proof (cases "chan0 s")
      case Nil
      with assms(2) W_range show ?thesis
        by (auto simp add: step_writer0_def split: if_splits)
    next
      case (Cons products rest)
      obtain r f where "writeCSV_loop (write_ok (csv_env cfg)) i products
          (case csv_file0 s of None \<Rightarrow> [] | Some f \<Rightarrow> f) = (r, f)"
        by (cases "writeCSV_loop (write_ok (csv_env cfg)) i products
          (case csv_file0 s of None \<Rightarrow> [] | Some f \<Rightarrow> f)") simp
      with assms(2) W_range Cons show ?thesis
        by (cases r) (auto simp add: step_writer0_def)
    qed
  qed (insert assms(2), auto simp add: step_writer0_def split: if_splits)
  with assms(1) show ?thesis by (simp add: variant_inv_def)
qed

lemma variant_task:
  assumes "variant_inv cfg s" and "step_task0 cfg p s = Some s'"
  shows "variant_inv cfg s'"
proof -
  from assms(2) have p: "p < length (tasks0 s)"
    by (simp add: step_task0_def split: if_splits)
  note ok = assms(1) [unfolded variant_inv_def]
  note v = variant_ok_D [OF ok]
  from v(1,9) p have np: "panic_of (tasks0 s ! p) = None" by simp
  show ?thesis
  proof (cases "tasks0 s ! p")
    case T_idle
    with assms(2) p show ?thesis by (simp add: step_task0_def)
  next
    case T_returned
    with assms(2) p show ?thesis by (simp add: step_task0_def)
  next
    case (T_fatal e)
    with np show ?thesis by simp
  next
    case T_fetch
    show ?thesis
    proof (cases "fetchData cfg p")
      case (Inl e)
      with assms(2) p T_fetch have s': "s' = s\<lparr>tasks0 := (tasks0 s)[p := T_release None],
          trace0 := trace0 s @ [Fetched p, LogFetchError p e]\<rparr>"
        by (simp add: step_task0_def)
      show ?thesis
        using variant_task_same [OF ok p, of "T_release None"] T_fetch
        by (simp add: variant_inv_def s')
    next
      case (Inr b)
      with assms(2) p T_fetch have s': "s' = s\<lparr>tasks0 := (tasks0 s)[p := T_send b],
          trace0 := trace0 s @ [Fetched p, LogPage p (length b)]\<rparr>"
        by (simp add: step_task0_def)
      show ?thesis
        using variant_task_same [OF ok p, of "T_send b"] T_fetch
        by (simp add: variant_inv_def s')
    qed
  next
    case (T_send b)
    then have "pending (tasks0 s ! p)" by simp
    from variant_pending(3) [OF ok p this] have "\<not> closed0 s" .
    with assms(2) p T_send have
      s': "s' = s\<lparr>chan0 := chan0 s @ [b], tasks0 := (tasks0 s)[p := T_release None],
                trace0 := trace0 s @ [Sent p]\<rparr>"
      by (simp add: step_task0_def split: if_splits)
    show ?thesis
      using variant_task_same [OF ok p, of "T_release None"] T_send
      by (simp add: variant_inv_def s')
  next
    case (T_release panicking)
    with np have none: "panicking = None" by simp
    from assms(2) p T_release have
      s': "s' = s\<lparr>sem0 := sem0 s - 1, tasks0 := (tasks0 s)[p := T_done panicking]\<rparr>"
      by (simp add: step_task0_def split: if_splits)
    show ?thesis
      using variant_task_same [OF ok p, of "T_done panicking"] T_release none
      by (simp add: variant_inv_def s')
  next
    case (T_done panicking)
    with np have none: "panicking = None" by simp
    from T_done have pd: "pending (tasks0 s ! p)" by simp
    from variant_pending(1) [OF ok p pd] assms(2) p T_done none have
      s': "s' = s\<lparr>wg0 := wg0 s - 1, tasks0 := (tasks0 s)[p := T_returned]\<rparr>"
      by (simp add: step_task0_def)
    show ?thesis
      using variant_task_done [OF ok p pd, of T_returned]
      by (simp add: variant_inv_def s')
  qed
qed

lemma step0_Some:
  assumes "step0 cfg t s = Some s'"
  shows "status0 s = Running"
    and "t = Main0 \<Longrightarrow> step_main0 cfg s = Some s'"
    and "t = Dispatcher0 \<Longrightarrow> step_disp0 cfg s = Some s'"
    and "t = Writer0 \<Longrightarrow> step_writer0 cfg s = Some s'"
    and "t = Task0 p \<Longrightarrow> step_task0 cfg p s = Some s'"
  using assms by (simp_all add: step0_def split: if_splits)

lemma variant_step:
  assumes "variant_inv cfg s" and "step0 cfg t s = Some s'"
  shows "variant_inv cfg s'"
proof (cases t)
  case Main0
  with assms show ?thesis by (blast intro: variant_main step0_Some(2))
next
  case Dispatcher0
  with assms show ?thesis by (blast intro: variant_disp step0_Some(3))
next
  case Writer0
  with assms show ?thesis by (blast intro: variant_writer step0_Some(4))
next
  case (Task0 p)
  with assms show ?thesis by (blast intro: variant_task step0_Some(5))
qed

lemma variant_run:
  assumes "variant_inv cfg s" and "run0 cfg sched s = Some s'"
  shows "variant_inv cfg s'"
  using assms
proof (induction sched arbitrary: s)
  case Nil
  then show ?case by simp
next
  case (Cons t sched)
  from Cons.prems(2) obtain s1 where
    s1: "step0 cfg t s = Some s1" "run0 cfg sched s1 = Some s'"
    by (cases "step0 cfg t s") simp_all
  from variant_step [OF Cons.prems(1) s1(1)] s1(2) show ?case by (rule Cons.IH)
qed

text \<open>
  In the variant the sentence of claim C2 holds: in every state of every run, if
  \<^verbatim>\<open>productsChan\<close> is closed then \<^verbatim>\<open>fetchProducts\<close> has returned and every page
  goroutine has returned; and no page goroutine ever finds the channel closed.
\<close>

lemma close_after_tasks_part_000:
  assumes "exec0 cfg sched = Some s"
  shows "closed0 s \<longrightarrow>
           wg0 s = 0 \<and> disp0 s = F_returned \<and> (\<forall>p < pageMax cfg. tasks0 s ! p = T_returned)"
    and "\<forall>p < pageMax cfg. panic_of (tasks0 s ! p) = None"
proof -
  from assms have "variant_inv cfg s"
    using variant_run [OF variant_init, of cfg sched s] by (simp add: exec0_def)
  then have ok: "variant_ok cfg (main0 s) (disp0 s) (tasks0 s) (wg0 s) (closed0 s)"
    by (simp add: variant_inv_def)
  note v = variant_ok_D [OF ok]
  from v(9) show "\<forall>p < pageMax cfg. panic_of (tasks0 s ! p) = None" .
  show "closed0 s \<longrightarrow>
      wg0 s = 0 \<and> disp0 s = F_returned \<and> (\<forall>p < pageMax cfg. tasks0 s ! p = T_returned)"
  proof
    assume "closed0 s"
    with v(8) have cl: "closing0 (main0 s)" by simp
    then have "waited0 (main0 s)" and m: "main0 s \<noteq> P_add" by (cases "main0 s"; simp)+
    with v(7) have z: "wg0 s = 0" by simp
    define k where "k = length (filter pending (tasks0 s))"
    from v(6) z have "0 = int k + (if adding0 (disp0 s) then 1 else 0)
         + (if main0 s \<noteq> P_add \<and> disp0 s \<noteq> F_returned then 1 else (0::int))"
      by (simp add: k_def)
    with m have "k = 0" and d: "disp0 s = F_returned" by (simp_all split: if_splits)
    then have none: "filter pending (tasks0 s) = []" by (simp add: k_def)
    have "tasks0 s ! p = T_returned" if p: "p < pageMax cfg" for p
    proof -
      from d v(5) p have "tasks0 s ! p \<noteq> T_idle" by auto
      moreover from none p v(1) have "\<not> pending (tasks0 s ! p)" by (simp add: not_pending_at)
      moreover from v(9) p have "panic_of (tasks0 s ! p) = None" by simp
      ultimately show ?thesis by (cases "tasks0 s ! p") simp_all
    qed
    with z d show "wg0 s = 0 \<and> disp0 s = F_returned \<and>
        (\<forall>p < pageMax cfg. tasks0 s ! p = T_returned)" by simp
  qed
qed


text \<open>A complete run of the variant with one page: the record reaches the CSV file.\<close>

lemma part_000_one_page_run:
  "map_option (\<lambda>s. (status0 s, closed0 s, tasks0 s, csv_file0 s))
     (exec0 one_page_cfg
        [Main0, Main0, Main0, Dispatcher0, Dispatcher0, Dispatcher0, Dispatcher0, Dispatcher0,
         Writer0, Task0 0, Task0 0, Task0 0, Task0 0, Main0, Main0, Writer0, Writer0, Writer0,
         Main0, Main0]) =
     Some (Exited 0, True, [T_returned],
           Some [csv_header,
                 [''Learning Go'', ''2021-03-02'', ''/library/view/learning-go/9781492077206/'',
                  ''book'', ''en'', ''Programming > Web'', ''cover.jpg'', ''[OReilly Media]'',
                  ''[Jon Bodner]'']])"
  by code_simp

end
